theory Spec2Isabelle
  imports Main "HOL-Library.List_Lexorder" "HOL-Library.Multiset"
begin

section \<open>Python strings\<close>

text \<open>
  The script \<^verbatim>\<open>scripts/codex_compatibility_sync.py\<close> works on Python \<^verbatim>\<open>str\<close> values.
  A \<^verbatim>\<open>str\<close> is modelled as a \<^typ>\<open>string\<close>, each \<^typ>\<open>char\<close> standing for the code point
  of the same number, so the model covers the texts whose code points lie in
  U+0000..U+00FF. The character classes below are Python's on that range:
  \<^verbatim>\<open>str.isspace\<close> (used by \<^verbatim>\<open>strip()\<close>), the line boundaries of \<^verbatim>\<open>splitlines()\<close>, the
  decimal digits matched by \<^verbatim>\<open>\d\<close>, and the letters changed by \<^verbatim>\<open>lower()\<close>.
\<close>

definition is_space :: "char \<Rightarrow> bool" where
  "is_space c =
     (let n = (of_char c :: nat)
      in (9 \<le> n \<and> n \<le> 13) \<or> (28 \<le> n \<and> n \<le> 32) \<or> n = 133 \<or> n = 160)"

definition is_linebreak :: "char \<Rightarrow> bool" where
  "is_linebreak c =
     (let n = (of_char c :: nat)
      in (10 \<le> n \<and> n \<le> 13) \<or> (28 \<le> n \<and> n \<le> 30) \<or> n = 133)"

definition is_digit :: "char \<Rightarrow> bool" where
  "is_digit c = (let n = (of_char c :: nat) in 48 \<le> n \<and> n \<le> 57)"

definition lower_char :: "char \<Rightarrow> char" where
  "lower_char c =
     (let n = (of_char c :: nat)
      in if (65 \<le> n \<and> n \<le> 90) \<or> (192 \<le> n \<and> n \<le> 222 \<and> n \<noteq> 215)
         then char_of (n + 32) else c)"

definition str_lower :: "string \<Rightarrow> string" where
  "str_lower s = map lower_char s"

text \<open>\<^verbatim>\<open>s.lstrip(chars)\<close>, \<^verbatim>\<open>s.rstrip(chars)\<close> and \<^verbatim>\<open>s.strip(chars)\<close>, the character set
  given as a predicate; \<^verbatim>\<open>s.strip()\<close> strips white space.\<close>

definition str_lstrip :: "(char \<Rightarrow> bool) \<Rightarrow> string \<Rightarrow> string" where
  "str_lstrip P s = dropWhile P s"

definition str_rstrip :: "(char \<Rightarrow> bool) \<Rightarrow> string \<Rightarrow> string" where
  "str_rstrip P s = rev (dropWhile P (rev s))"

definition str_strip_chars :: "(char \<Rightarrow> bool) \<Rightarrow> string \<Rightarrow> string" where
  "str_strip_chars P s = str_rstrip P (str_lstrip P s)"

definition str_strip :: "string \<Rightarrow> string" where
  "str_strip s = str_strip_chars is_space s"

text \<open>\<^verbatim>\<open>s.split(sep)\<close> for a separator of one character: the empty string gives one
  empty field.\<close>

fun str_split :: "char \<Rightarrow> string \<Rightarrow> string list" where
  "str_split sep [] = [[]]"
| "str_split sep (c # cs) =
     (if c = sep then [] # str_split sep cs
      else (case str_split sep cs of
              [] \<Rightarrow> [[c]]
            | w # ws \<Rightarrow> (c # w) # ws))"

text \<open>\<^verbatim>\<open>sep.join(xs)\<close>.\<close>

fun str_join :: "string \<Rightarrow> string list \<Rightarrow> string" where
  "str_join sep [] = []"
| "str_join sep [x] = x"
| "str_join sep (x # y # ys) = x @ sep @ str_join sep (y # ys)"

definition str_startswith :: "string \<Rightarrow> string \<Rightarrow> bool" where
  "str_startswith s p = (take (length p) s = p)"

text \<open>\<^verbatim>\<open>s.splitlines()\<close>: a line ends at a line boundary, \<^verbatim>\<open>\r\n\<close> counts as one
  boundary, and a boundary at the very end opens no further line.\<close>

fun str_splitlines :: "string \<Rightarrow> string list" where
  "str_splitlines [] = []"
| "str_splitlines (c # cs) =
     (if c = CHR 0x0D then
        (case cs of
           [] \<Rightarrow> [[]]
         | d # ds \<Rightarrow> if d = CHR 0x0A then [] # str_splitlines ds
                     else [] # str_splitlines (d # ds))
      else if is_linebreak c then [] # str_splitlines cs
      else (case str_splitlines cs of
              [] \<Rightarrow> [[c]]
            | l # ls \<Rightarrow> (c # l) # ls))"

section \<open>Versions\<close>

text \<open>\<^verbatim>\<open>def normalize_version(v): return v.strip().lstrip("v")\<close>\<close>

definition normalize_version :: "string \<Rightarrow> string" where
  "normalize_version v = str_lstrip (\<lambda>c. c = CHR ''v'') (str_strip v)"

text \<open>\<^verbatim>\<open>re.fullmatch(r"\d+(?:\.\d+)+", s)\<close>: the fields between the dots are at least
  two, and each is a non-empty run of digits.\<close>

definition re_digits :: "string \<Rightarrow> bool" where
  "re_digits s = (s \<noteq> [] \<and> list_all is_digit s)"

definition re_version :: "string \<Rightarrow> bool" where
  "re_version s =
     (let parts = str_split CHR ''.'' s
      in 2 \<le> length parts \<and> list_all re_digits parts)"

text \<open>\<^verbatim>\<open>re.fullmatch(r"-+", s)\<close>\<close>

definition re_dashes :: "string \<Rightarrow> bool" where
  "re_dashes s = (s \<noteq> [] \<and> list_all (\<lambda>c. c = CHR ''-'') s)"

section \<open>Dictionaries\<close>

text \<open>
  A Python \<^verbatim>\<open>dict\<close> keeps its keys in insertion order, and that order decides how
  \<^verbatim>\<open>sorted\<close> (which is stable) places keys with equal sort keys. A dict is therefore
  an association list in insertion order: \<^verbatim>\<open>d[k] = v\<close> replaces the value in place
  when \<^verbatim>\<open>k\<close> is present and appends the pair otherwise.
\<close>

type_synonym ('k, 'v) dict = "('k \<times> 'v) list"

fun dict_set :: "('k, 'v) dict \<Rightarrow> 'k \<Rightarrow> 'v \<Rightarrow> ('k, 'v) dict" where
  "dict_set [] k v = [(k, v)]"
| "dict_set ((k', v') # d) k v =
     (if k' = k then (k, v) # d else (k', v') # dict_set d k v)"

text \<open>\<^verbatim>\<open>d.get(k, default)\<close>\<close>

definition dict_get :: "('k, 'v) dict \<Rightarrow> 'k \<Rightarrow> 'v \<Rightarrow> 'v" where
  "dict_get d k dflt = (case map_of d k of None \<Rightarrow> dflt | Some v \<Rightarrow> v)"

text \<open>\<^verbatim>\<open>d.update(other)\<close>, and a dict comprehension \<^verbatim>\<open>{k: v for ...}\<close> over the pairs
  it produces in order.\<close>

definition dict_update :: "('k, 'v) dict \<Rightarrow> ('k, 'v) dict \<Rightarrow> ('k, 'v) dict" where
  "dict_update d other = fold (\<lambda>kv acc. dict_set acc (fst kv) (snd kv)) other d"

definition dict_of_pairs :: "('k \<times> 'v) list \<Rightarrow> ('k, 'v) dict" where
  "dict_of_pairs kvs = dict_update [] kvs"

type_synonym row = "(string, string) dict"
type_synonym table = "(string, row) dict"

section \<open>Parsing the table\<close>

definition PLATFORMS :: "string list" where
  "PLATFORMS = [''linux'', ''mac'', ''windows'', ''rockylinux8'', ''ubuntu20.04'']"

definition HEADER :: "string list" where
  "HEADER =
     [''| Codex version | linux | mac | windows | rockylinux8 | ubuntu20.04 | last_tested_utc |'',
      ''| --- | --- | --- | --- | --- | --- | --- |'']"

text \<open>Line 34 of the script:
  \<^verbatim>\<open>parts = [part.strip() for part in line.strip().strip("|").split("|")]\<close>\<close>

definition line_parts :: "string \<Rightarrow> string list" where
  "line_parts line =
     map str_strip
       (str_split CHR ''|'' (str_strip_chars (\<lambda>c. c = CHR ''|'') (str_strip line)))"

text \<open>Lines 46 and 47: the row stored for a table line, from the dict \<^verbatim>\<open>row\<close> of its
  cells by column name.\<close>

definition parsed_row :: "row \<Rightarrow> row" where
  "parsed_row r =
     (let parsed =
            dict_of_pairs
              (map (\<lambda>platform.
                      (platform,
                       (let s = str_lower (str_strip (dict_get r platform ''''))
                        in if s = [] then ''not-run'' else s)))
                 PLATFORMS)
      in dict_set parsed ''last_tested_utc'' (str_strip (dict_get r ''last_tested_utc'' '''')))"

text \<open>The body of the loop of \<^verbatim>\<open>parse_table\<close> (lines 32 to 48), on the loop's state:
  the column names seen so far and the rows. Every \<^verbatim>\<open>continue\<close> returns the state
  unchanged.\<close>

definition parse_line :: "string list \<times> table \<Rightarrow> string \<Rightarrow> string list \<times> table" where
  "parse_line st line =
     (case st of (columns, rows) \<Rightarrow>
        if \<not> str_startswith line ''|'' then (columns, rows)
        else
          let parts = line_parts line
          in if length parts < 2 then (columns, rows)
             else if columns = [] then (parts, rows)
             else if list_all re_dashes parts then (columns, rows)
             else
               let r = dict_of_pairs (zip columns parts);
                   version = normalize_version (dict_get r ''Codex version'' '''')
               in if \<not> re_version version then (columns, rows)
                  else (columns, dict_set rows version (parsed_row r)))"

text \<open>\<^verbatim>\<open>parse_table\<close>: the file is \<^const>\<open>None\<close> when the path does not exist, and its
  decoded text otherwise.\<close>

definition parse_table :: "string option \<Rightarrow> table" where
  "parse_table table_file =
     (case table_file of
        None \<Rightarrow> []
      | Some content \<Rightarrow> snd (fold (\<lambda>line st. parse_line st line) (str_splitlines content) ([], [])))"

section \<open>Loading the result artifacts\<close>

text \<open>
  A value returned by \<^verbatim>\<open>json.loads\<close>. An object is a dict with string keys, in the
  order of the document. A float carries its Python \<^verbatim>\<open>repr\<close>, which the script only
  ever reads through \<^verbatim>\<open>str\<close>.
\<close>

datatype json =
    JNull
  | JBool bool
  | JInt int
  | JFloat string
  | JStr string
  | JArr "json list"
  | JObj "(string \<times> json) list"

fun nat_digits :: "nat \<Rightarrow> string" where
  "nat_digits n =
     (if n < 10 then [char_of (48 + n)]
      else nat_digits (n div 10) @ [char_of (48 + n mod 10)])"

definition int_str :: "int \<Rightarrow> string" where
  "int_str i = (if i < 0 then CHR ''-'' # nat_digits (nat (- i)) else nat_digits (nat i))"

definition hex_digit :: "nat \<Rightarrow> char" where
  "hex_digit d = (if d < 10 then char_of (48 + d) else char_of (87 + d))"

text \<open>\<^verbatim>\<open>repr\<close> of a \<^verbatim>\<open>str\<close>: double quotes when the string holds a single quote and no
  double quote; the quote and the backslash are escaped, and so are the characters
  that are not printable.\<close>

definition repr_char :: "char \<Rightarrow> char \<Rightarrow> string" where
  "repr_char q c =
     (let n = (of_char c :: nat)
      in if c = q \<or> c = CHR 0x5C then [CHR 0x5C, c]
         else if c = CHR 0x09 then [CHR 0x5C, CHR ''t'']
         else if c = CHR 0x0A then [CHR 0x5C, CHR ''n'']
         else if c = CHR 0x0D then [CHR 0x5C, CHR ''r'']
         else if n < 32 \<or> n = 127 \<or> (128 \<le> n \<and> n \<le> 160) \<or> n = 173
              then [CHR 0x5C, CHR ''x'', hex_digit (n div 16), hex_digit (n mod 16)]
         else [c])"

definition str_repr :: "string \<Rightarrow> string" where
  "str_repr s =
     (let q = (if CHR 0x27 \<in> set s \<and> CHR 0x22 \<notin> set s then CHR 0x22 else CHR 0x27)
      in q # concat (map (repr_char q) s) @ [q])"

text \<open>\<^verbatim>\<open>str(x)\<close> (with \<^const>\<open>False\<close>) and \<^verbatim>\<open>repr(x)\<close> (with \<^const>\<open>True\<close>) of a JSON value;
  they differ on strings only.\<close>

fun py_show :: "bool \<Rightarrow> json \<Rightarrow> string" where
  "py_show r JNull = ''None''"
| "py_show r (JBool b) = (if b then ''True'' else ''False'')"
| "py_show r (JInt i) = int_str i"
| "py_show r (JFloat f) = f"
| "py_show r (JStr s) = (if r then str_repr s else s)"
| "py_show r (JArr xs) = ''['' @ str_join '', '' (map (py_show True) xs) @ '']''"
| "py_show r (JObj kvs) =
     ''{'' @ str_join '', '' (map (\<lambda>kv. str_repr (fst kv) @ '': '' @ py_show True (snd kv)) kvs)
       @ ''}''"

definition py_str :: "json \<Rightarrow> string" where
  "py_str x = py_show False x"

text \<open>The exceptions of the script: \<^verbatim>\<open>SystemExit\<close> with its message, the
  \<^verbatim>\<open>AttributeError\<close> of \<^verbatim>\<open>payload.get\<close> on a payload that is not an object, the
  \<^verbatim>\<open>ValueError\<close> of \<^verbatim>\<open>int\<close>, and what reading and decoding a result file can raise:
  \<^verbatim>\<open>OSError\<close> (the path cannot be read) and \<^verbatim>\<open>UnicodeDecodeError\<close> (its bytes are not
  UTF-8) from \<^verbatim>\<open>read_text\<close>; from \<^verbatim>\<open>json.loads\<close>, \<^verbatim>\<open>JSONDecodeError\<close> (the text is not
  JSON), \<^verbatim>\<open>RecursionError\<close> (it is nested too deeply) and a plain \<^verbatim>\<open>ValueError\<close> (an
  integer literal has more digits than the interpreter converts). The constructors
  are the exact classes: \<^verbatim>\<open>except json.JSONDecodeError\<close> catches \<^verbatim>\<open>JSONDecodeError\<close>
  alone, the other classes not being subclasses of it.\<close>

datatype error = SystemExit string | AttributeError | ValueError
  | JSONDecodeError | UnicodeDecodeError | RecursionError | OSError

type_synonym updates = "(string, row) dict"

text \<open>The body of the inner loop of \<^verbatim>\<open>load_results\<close> (lines 70 to 76), for one item of
  \<^verbatim>\<open>results\<close>. The keys of a JSON object are strings, so \<^verbatim>\<open>str(version)\<close> is the key.
  \<^verbatim>\<open>updates.setdefault(normalized, {})[platform] = s\<close> sets one entry of the inner
  dict, which is created empty when the version is new.\<close>

definition load_entry :: "string \<Rightarrow> updates \<Rightarrow> string \<times> json \<Rightarrow> updates" where
  "load_entry platform updates item =
     (case item of (version, status) \<Rightarrow>
        let normalized = normalize_version version
        in if \<not> re_version normalized then updates
           else
             let normalized_status = str_lower (str_strip (py_str status));
                 normalized_status =
                   (if normalized_status \<notin> {''pass'', ''fail'', ''not-run''} then ''fail''
                    else normalized_status)
             in dict_set updates normalized
                  (dict_set (dict_get updates normalized []) platform normalized_status))"

text \<open>A result file is given by what \<^verbatim>\<open>json.loads(path.read_text(encoding="utf-8"))\<close>
  does on it: the exception raised, or the payload returned. The body of the outer
  loop (lines 58 to 76) for one file: the \<^verbatim>\<open>try\<close> of lines 58 to 61 catches
  \<^const>\<open>JSONDecodeError\<close> and goes on to the next file; every other exception leaves
  \<^verbatim>\<open>load_results\<close>. \<^verbatim>\<open>str\<close> of a value that \<^verbatim>\<open>json.loads\<close> returned does not raise.\<close>

type_synonym result_file = "error + json"

definition load_file :: "updates \<Rightarrow> result_file \<Rightarrow> error + updates" where
  "load_file updates file =
     (case file of
        Inl e \<Rightarrow> (if e = JSONDecodeError then Inr updates else Inl e)
      | Inr payload \<Rightarrow>
          (case payload of
             JObj fields \<Rightarrow>
               let platform = str_strip (py_str (dict_get fields ''platform'' (JStr '''')))
               in if platform \<notin> set PLATFORMS then Inr updates
                  else (case dict_get fields ''results'' (JObj []) of
                          JObj results \<Rightarrow>
                            Inr (fold (\<lambda>item u. load_entry platform u item) results updates)
                        | _ \<Rightarrow> Inr updates)
           | _ \<Rightarrow> Inl AttributeError))"

fun load_files :: "updates \<Rightarrow> result_file list \<Rightarrow> error + updates" where
  "load_files updates [] = Inr updates"
| "load_files updates (f # fs) =
     (case load_file updates f of
        Inl e \<Rightarrow> Inl e
      | Inr u \<Rightarrow> load_files u fs)"

text \<open>\<^verbatim>\<open>load_results\<close>: the directory is \<^const>\<open>None\<close> when it does not exist; otherwise
  it gives the \<^verbatim>\<open>*.json\<close> files under it in sorted path order.\<close>

definition load_results :: "result_file list option \<Rightarrow> error + updates" where
  "load_results results_dir =
     (case results_dir of
        None \<Rightarrow> Inr []
      | Some files \<Rightarrow> load_files [] files)"

section \<open>Writing the table\<close>

text \<open>
  \<^verbatim>\<open>int(s)\<close> for a \<^verbatim>\<open>str\<close>: surrounding white space is dropped, one sign may lead,
  and single underscores may stand between digits; anything else raises
  \<^verbatim>\<open>ValueError\<close> (\<^const>\<open>None\<close>). The white space of \<^verbatim>\<open>int\<close> is the ASCII white space
  and the spaces beyond ASCII; unlike \<^verbatim>\<open>strip()\<close>, it leaves out the separators
  U+001C to U+001F. The flag of \<open>int_digits\<close> says that the character before was a
  digit. Python's integers are unbounded, as \<^typ>\<open>int\<close> is, but the conversion is not:
  \<^verbatim>\<open>int\<close> raises \<^verbatim>\<open>ValueError\<close> when the text holds more digits than
  \<^verbatim>\<open>sys.get_int_max_str_digits()\<close>, which is 4300 unless the interpreter was started
  with another value, and 0 when there is no limit (as in the interpreters older
  than the limit). The limit is the parameter \<open>limit\<close> of \<open>py_int\<close> and of every
  function that reaches it. The digits are counted without the sign, the white space
  and the underscores, leading zeros included, and the interpreter never refuses a
  text of 640 digits or fewer.
\<close>

definition exceeds_limit :: "nat \<Rightarrow> nat \<Rightarrow> bool" where
  "exceeds_limit limit digits = (640 < digits \<and> 0 < limit \<and> limit < digits)"

definition is_int_space :: "char \<Rightarrow> bool" where
  "is_int_space c =
     (let n = (of_char c :: nat)
      in (9 \<le> n \<and> n \<le> 13) \<or> n = 32 \<or> n = 133 \<or> n = 160)"

fun int_digits :: "bool \<Rightarrow> int \<Rightarrow> string \<Rightarrow> int option" where
  "int_digits after_digit acc [] = (if after_digit then Some acc else None)"
| "int_digits after_digit acc (c # cs) =
     (if is_digit c then int_digits True (10 * acc + (int (of_char c) - 48)) cs
      else if c = CHR ''_'' \<and> after_digit then int_digits False acc cs
      else None)"

definition py_int :: "nat \<Rightarrow> string \<Rightarrow> int option" where
  "py_int limit s =
     (case str_strip_chars is_int_space s of
        [] \<Rightarrow> None
      | c # cs \<Rightarrow>
          let body = (if c = CHR ''-'' \<or> c = CHR ''+'' then cs else c # cs)
          in if exceeds_limit limit (length (filter is_digit body)) then None
             else if c = CHR ''-'' then map_option uminus (int_digits False 0 body)
             else int_digits False 0 body)"

text \<open>\<^verbatim>\<open>def version_sort_key(version): return tuple(int(part) for part in version.split("."))\<close>
  Tuples of integers compare as lists do in the lexicographic order, a proper
  prefix being smaller.\<close>

definition version_sort_key :: "nat \<Rightarrow> string \<Rightarrow> int list option" where
  "version_sort_key limit version = those (map (py_int limit) (str_split CHR ''.'' version))"

text \<open>The versions whose sort key \<^verbatim>\<open>int\<close> computes: no part between the dots has more
  digits than the interpreter converts.\<close>

definition within_limit :: "nat \<Rightarrow> string \<Rightarrow> bool" where
  "within_limit limit version =
     list_all (\<lambda>part. \<not> exceeds_limit limit (length part)) (str_split CHR ''.'' version)"

text \<open>\<^verbatim>\<open>sorted(keys, key=version_sort_key, reverse=True)\<close>: the sort keys are computed
  first (any \<^verbatim>\<open>ValueError\<close> leaves the call); the sort is stable, and with
  \<^verbatim>\<open>reverse=True\<close> elements with equal keys still keep their order, which is what
  sorting the reversed list and reversing the result gives.\<close>

definition sorted_versions :: "nat \<Rightarrow> string list \<Rightarrow> string list option" where
  "sorted_versions limit versions =
     (case those (map (version_sort_key limit) versions) of
        None \<Rightarrow> None
      | Some ks \<Rightarrow> Some (map snd (rev (sort_key fst (rev (zip ks versions))))))"

text \<open>The line of one row (lines 96 to 100).\<close>

definition table_line :: "string \<Rightarrow> row \<Rightarrow> string" where
  "table_line version r =
     ''| '' @ version @ '' | '' @ dict_get r ''linux'' ''not-run'' @ '' | ''
       @ dict_get r ''mac'' ''not-run'' @ '' | ''
       @ dict_get r ''windows'' ''not-run'' @ '' | ''
       @ dict_get r ''rockylinux8'' ''not-run'' @ '' | ''
       @ dict_get r ''ubuntu20.04'' ''not-run'' @ '' | ''
       @ dict_get r ''last_tested_utc'' '''' @ '' |''"

definition PREAMBLE :: "string list" where
  "PREAMBLE =
     [''# Codex Compatibility'',
      '''',
      ''Auto-updated by '' @ [CHR 0x60] @ ''.github/workflows/codex-release-monitor.yml''
        @ [CHR 0x60] @ ''.'',
      '''']
     @ HEADER"

text \<open>\<^verbatim>\<open>write_table\<close> returns the text written to the table's path. Each version comes
  from the keys of \<^verbatim>\<open>rows\<close>, so \<^verbatim>\<open>rows[version]\<close> finds it and the default of the
  lookup is never taken.\<close>

definition write_table :: "nat \<Rightarrow> table \<Rightarrow> error + string" where
  "write_table limit rows =
     (case sorted_versions limit (map fst rows) of
        None \<Rightarrow> Inl ValueError
      | Some versions \<Rightarrow>
          Inr (str_join [CHR 0x0A]
                 (PREAMBLE @ map (\<lambda>version. table_line version (dict_get rows version [])) versions)
               @ [CHR 0x0A]))"

section \<open>The run\<close>

text \<open>Lines 125 to 129 of \<^verbatim>\<open>main\<close>: the rows after the merge; \<open>now\<close> is the text of
  \<^verbatim>\<open>datetime.now(timezone.utc).strftime("%Y-%m-%dT%H:%M:%SZ")\<close>.\<close>

definition merged_row :: "string \<Rightarrow> table \<Rightarrow> updates \<Rightarrow> string \<Rightarrow> row" where
  "merged_row version rows updates now =
     (let base = dict_get rows version [];
          merged = dict_of_pairs (map (\<lambda>platform. (platform, dict_get base platform ''not-run'')) PLATFORMS);
          merged = dict_update merged (dict_get updates version [])
      in dict_set merged ''last_tested_utc'' now)"

definition merge_rows :: "string \<Rightarrow> table \<Rightarrow> updates \<Rightarrow> string \<Rightarrow> table" where
  "merge_rows version rows updates now =
     dict_set rows version (merged_row version rows updates now)"

text \<open>
  \<^verbatim>\<open>main\<close>, from the parsed arguments on. Its inputs are the interpreter's limit on
  the digits of an integer, the \<^verbatim>\<open>--version\<close> argument, the results directory as
  \<^const>\<open>load_results\<close> reads it, the clock's text and the table file (\<^const>\<open>None\<close> when
  absent); it returns how the call ends (an exception, or the value returned) and
  the table file afterwards. An exception is raised before \<^verbatim>\<open>write_text\<close> is reached,
  so it leaves the file as it was. The table file, when it exists, is taken to be
  UTF-8 text that the file system lets the script read, and the write of lines 85
  and 103 to go through; the argument parser has accepted the command line.
\<close>

definition main :: "nat \<Rightarrow> string \<Rightarrow> result_file list option \<Rightarrow> string \<Rightarrow> string option
    \<Rightarrow> (error + int) \<times> string option" where
  "main limit arg_version results_dir now table_file =
     (let version = normalize_version arg_version
      in if \<not> re_version version
         then (Inl (SystemExit (''Invalid version: '' @ arg_version)), table_file)
         else
           let rows = parse_table table_file
           in (case load_results results_dir of
                 Inl e \<Rightarrow> (Inl e, table_file)
               | Inr updates \<Rightarrow>
                   (case write_table limit (merge_rows version rows updates now) of
                      Inl e \<Rightarrow> (Inl e, table_file)
                    | Inr content \<Rightarrow> (Inr 0, Some content))))"

text \<open>\<^verbatim>\<open>raise SystemExit(main())\<close>: the exit status of the process. A \<^verbatim>\<open>SystemExit\<close>
  carrying a message prints it and exits with status 1, as an uncaught exception
  does.\<close>

definition exit_status :: "error + int \<Rightarrow> int" where
  "exit_status outcome = (case outcome of Inl e \<Rightarrow> 1 | Inr code \<Rightarrow> code)"

section \<open>Invariants of the dictionaries\<close>

text \<open>What every dict of loaded statuses satisfies: its keys are versions, each once;
  the keys of an inner dict are platforms, each once, and its values are statuses.\<close>

definition updates_inv :: "updates \<Rightarrow> bool" where
  "updates_inv u =
     (distinct (map fst u)
      \<and> list_all
          (\<lambda>vr. re_version (fst vr) \<and> distinct (map fst (snd vr))
                \<and> list_all (\<lambda>ps. fst ps \<in> set PLATFORMS
                             \<and> snd ps \<in> {''pass'', ''fail'', ''not-run''}) (snd vr))
          u)"

text \<open>What the keys of every dict of rows satisfy.\<close>

definition rows_inv :: "table \<Rightarrow> bool" where
  "rows_inv rows = (distinct (map fst rows) \<and> list_all re_version (map fst rows))"

text \<open>What every cell of a parsed row satisfies, and what lets a cell be written and
  read back: it holds no bar and no line boundary, and no white space surrounds
  it.\<close>

definition clean_cell :: "string \<Rightarrow> bool" where
  "clean_cell s = (CHR ''|'' \<notin> set s \<and> \<not> list_ex is_linebreak s \<and> str_strip s = s)"

text \<open>The rows that \<^const>\<open>parse_table\<close> builds: the five platforms and the time stamp,
  in this order; the statuses are clean cells, not empty and in lower case.\<close>

definition clean_status :: "string \<Rightarrow> bool" where
  "clean_status s = (clean_cell s \<and> s \<noteq> [] \<and> str_lower s = s)"

definition clean_row :: "row \<Rightarrow> bool" where
  "clean_row r =
     (map fst r = PLATFORMS @ [''last_tested_utc'']
      \<and> list_all clean_status (map snd (butlast r))
      \<and> clean_cell (snd (last r)))"

definition clean_rows :: "table \<Rightarrow> bool" where
  "clean_rows rows = list_all (\<lambda>vr. clean_row (snd vr)) rows"

section \<open>Facts about stripping and versions\<close>

lemma str_lstrip_id: "s = [] \<or> \<not> P (hd s) \<Longrightarrow> str_lstrip P s = s"
  by (cases s) (auto simp: str_lstrip_def)

lemma str_rstrip_id: "s = [] \<or> \<not> P (last s) \<Longrightarrow> str_rstrip P s = s"
  by (cases s rule: rev_cases) (auto simp: str_rstrip_def)

lemma str_strip_chars_id:
  "s = [] \<or> (\<not> P (hd s) \<and> \<not> P (last s)) \<Longrightarrow> str_strip_chars P s = s"
  by (auto simp: str_strip_chars_def str_lstrip_id str_rstrip_id)

lemma str_lstrip_hd: "str_lstrip P s \<noteq> [] \<Longrightarrow> \<not> P (hd (str_lstrip P s))"
  unfolding str_lstrip_def by (simp add: hd_dropWhile)

lemma str_rstrip_last: "str_rstrip P s \<noteq> [] \<Longrightarrow> \<not> P (last (str_rstrip P s))"
  unfolding str_rstrip_def by (simp add: last_rev hd_dropWhile)

lemma str_rstrip_hd:
  assumes "s \<noteq> []" "\<not> P (hd s)"
  shows "str_rstrip P s \<noteq> [] \<and> hd (str_rstrip P s) = hd s"
proof -
  obtain c cs where s: "s = c # cs" using assms(1) by (cases s) auto
  have "rev s = rev cs @ [c]" by (simp add: s)
  then have "dropWhile P (rev s) = dropWhile P (rev cs) @ [c] \<or> dropWhile P (rev s) = [c]"
    using assms(2) s by (auto simp: dropWhile_append)
  then show ?thesis unfolding str_rstrip_def using s assms(2) by auto
qed

lemma str_strip_chars_ends:
  assumes "str_strip_chars P s \<noteq> []"
  shows "\<not> P (hd (str_strip_chars P s)) \<and> \<not> P (last (str_strip_chars P s))"
proof -
  let ?l = "str_lstrip P s"
  have l: "?l \<noteq> []" using assms by (auto simp: str_strip_chars_def str_rstrip_def)
  then have "\<not> P (hd ?l)" by (rule str_lstrip_hd)
  with l have "hd (str_rstrip P ?l) = hd ?l" using str_rstrip_hd by blast
  with \<open>\<not> P (hd ?l)\<close> assms show ?thesis
    by (simp add: str_strip_chars_def str_rstrip_last)
qed

lemma str_lstrip_last: "str_lstrip P s \<noteq> [] \<Longrightarrow> last (str_lstrip P s) = last s"
  unfolding str_lstrip_def
  by (metis append_self_conv2 last_appendR takeWhile_dropWhile_id)

lemma normalize_version_ends:
  assumes "normalize_version v \<noteq> []"
  shows "normalize_version v \<noteq> [] \<and> hd (normalize_version v) \<noteq> CHR ''v'' \<and> \<not> is_space (last (normalize_version v))"
proof -
  have s: "str_strip v \<noteq> []" using assms by (auto simp: normalize_version_def str_lstrip_def)
  have "last (normalize_version v) = last (str_strip v)"
    using assms unfolding normalize_version_def by (rule str_lstrip_last)
  moreover have "\<not> is_space (last (str_strip v))"
    using s str_strip_chars_ends[of is_space v] by (simp add: str_strip_def)
  moreover have "hd (normalize_version v) \<noteq> CHR ''v''"
    using assms str_lstrip_hd[of "\<lambda>c. c = CHR ''v''" "str_strip v"] by (simp add: normalize_version_def)
  ultimately show ?thesis using assms by simp
qed

lemma length_str_strip: "length (str_strip s) \<le> length s"
  unfolding str_strip_def str_strip_chars_def str_rstrip_def str_lstrip_def
  by (metis length_dropWhile_le length_rev le_trans)

lemma length_str_strip_less: "s \<noteq> [] \<Longrightarrow> is_space (hd s) \<Longrightarrow> length (str_strip s) < length s"
proof -
  assume a: "s \<noteq> []" "is_space (hd s)"
  then obtain c cs where s: "s = c # cs" by (cases s) auto
  have "length (dropWhile is_space s) \<le> length cs" using a s by (simp add: length_dropWhile_le)
  moreover have "length (str_strip s) \<le> length (dropWhile is_space s)"
    unfolding str_strip_def str_strip_chars_def str_rstrip_def str_lstrip_def
    by (metis length_dropWhile_le length_rev)
  ultimately show ?thesis using s by simp
qed

lemma normalize_version_twice:
  "normalize_version (normalize_version v) = normalize_version v
   \<longleftrightarrow> normalize_version v = [] \<or> \<not> is_space (hd (normalize_version v))"
proof (cases "normalize_version v = []")
  case True
  have "normalize_version [] = []"
    by (simp add: normalize_version_def str_strip_def str_strip_chars_def str_rstrip_def str_lstrip_def)
  with True show ?thesis by simp
next
  case False
  let ?w = "normalize_version v"
  from False have e: "hd ?w \<noteq> CHR ''v''" "\<not> is_space (last ?w)"
    using normalize_version_ends by blast+
  show ?thesis
  proof (cases "is_space (hd ?w)")
    case True
    have "length (normalize_version ?w) \<le> length (str_strip ?w)"
      by (simp add: normalize_version_def str_lstrip_def length_dropWhile_le)
    also have "\<dots> < length ?w" using False True by (rule length_str_strip_less)
    finally show ?thesis using True False by auto
  next
    case F2: False
    have "str_strip ?w = ?w" using F2 e unfolding str_strip_def by (intro str_strip_chars_id) simp
    then have "normalize_version ?w = ?w"
      using e False by (simp add: normalize_version_def[of ?w] str_lstrip_id)
    then show ?thesis using F2 by simp
  qed
qed

lemma str_split_nonempty [simp]: "str_split sep s \<noteq> []"
  by (induction s) (auto split: list.splits)

lemma str_split_hd:
  "str_split sep s = p # ps \<Longrightarrow> p \<noteq> [] \<Longrightarrow> s \<noteq> [] \<and> hd s = hd p"
  by (cases s) (auto split: if_splits list.splits)

lemma is_digit_not_space: "is_digit c \<Longrightarrow> \<not> is_space c"
  by (auto simp: is_digit_def is_space_def Let_def)

lemma re_version_hd: "re_version s \<Longrightarrow> s \<noteq> [] \<and> is_digit (hd s)"
proof -
  assume a: "re_version s"
  obtain p ps where sp: "str_split CHR ''.'' s = p # ps"
    using str_split_nonempty by (cases "str_split CHR ''.'' s") auto
  with a have "re_digits p" by (simp add: re_version_def)
  then have p: "p \<noteq> []" "is_digit (hd p)" by (cases p; simp add: re_digits_def)+
  from str_split_hd[OF sp p(1)] p(2) show ?thesis by simp
qed

section \<open>Facts about dictionaries\<close>

lemma map_of_dict_set: "map_of (dict_set d k v) = (map_of d)(k \<mapsto> v)"
  by (induction d k v rule: dict_set.induct) auto

lemma keys_dict_set:
  "map fst (dict_set d k v) = (if k \<in> fst ` set d then map fst d else map fst d @ [k])"
  by (induction d k v rule: dict_set.induct) auto

lemma set_keys_dict_set: "fst ` set (dict_set d k v) = insert k (fst ` set d)"
  using arg_cong[OF keys_dict_set[of d k v], of set] by (auto split: if_splits)

lemma distinct_dict_set: "distinct (map fst d) \<Longrightarrow> distinct (map fst (dict_set d k v))"
  by (simp add: keys_dict_set)

lemma dict_get_dict_set:
  "dict_get (dict_set d k v) k' dflt = (if k' = k then v else dict_get d k' dflt)"
  by (simp add: dict_get_def map_of_dict_set)

lemma dict_update_Nil [simp]: "dict_update d [] = d"
  by (simp add: dict_update_def)

lemma dict_update_Cons [simp]:
  "dict_update d (kv # other) = dict_update (dict_set d (fst kv) (snd kv)) other"
  by (simp add: dict_update_def)

lemma dict_update_snoc:
  "dict_update d (other @ [kv]) = dict_set (dict_update d other) (fst kv) (snd kv)"
  by (simp add: dict_update_def)

lemma distinct_dict_update: "distinct (map fst d) \<Longrightarrow> distinct (map fst (dict_update d other))"
  by (induction other arbitrary: d) (simp_all add: distinct_dict_set)

lemma set_keys_dict_update:
  "fst ` set (dict_update d other) = fst ` set d \<union> fst ` set other"
  by (induction other arbitrary: d) (simp_all add: set_keys_dict_set)

lemma keys_dict_update_subset:
  "fst ` set other \<subseteq> fst ` set d \<Longrightarrow> map fst (dict_update d other) = map fst d"
  by (induction other arbitrary: d) (simp_all add: keys_dict_set set_keys_dict_set subset_insertI2)

lemma map_of_dict_update:
  "distinct (map fst other) \<Longrightarrow>
   map_of (dict_update d other) k = (case map_of other k of None \<Rightarrow> map_of d k | Some v \<Rightarrow> Some v)"
proof (induction other arbitrary: d rule: rev_induct)
  case Nil
  then show ?case by simp
next
  case (snoc kv other)
  then have d: "distinct (map fst other)" and n: "fst kv \<notin> set (map fst other)" by auto
  from n have m: "map_of other (fst kv) = None" by (simp add: map_of_eq_None_iff)
  show ?case
    using snoc.IH[OF d, of d] m
    by (cases kv) (auto simp: dict_update_snoc map_of_dict_set split: option.splits)
qed

lemma keys_dict_of_pairs:
  "distinct (map fst kvs) \<Longrightarrow> dict_of_pairs kvs = kvs"
proof (induction kvs rule: rev_induct)
  case Nil
  then show ?case by (simp add: dict_of_pairs_def)
next
  case (snoc kv kvs)
  then have "dict_of_pairs kvs = kvs" and n: "fst kv \<notin> set (map fst kvs)" by auto
  moreover have "\<And>d. fst kv \<notin> set (map fst d) \<Longrightarrow> dict_set d (fst kv) (snd kv) = d @ [kv]"
  proof -
    fix d :: "('a \<times> 'b) list" show "fst kv \<notin> set (map fst d) \<Longrightarrow> dict_set d (fst kv) (snd kv) = d @ [kv]"
      by (induction d) auto
  qed
  ultimately show ?case
    by (simp add: dict_of_pairs_def dict_update_snoc)
qed

lemma fold_invariant:
  assumes "P s" and "\<And>x s. P s \<Longrightarrow> P (f x s)"
  shows "P (fold f xs s)"
  using assms(1) by (induction xs arbitrary: s) (simp_all add: assms(2))

section \<open>Facts about sorting the versions\<close>

lemma int_digits_Some:
  "list_all is_digit s \<Longrightarrow> s \<noteq> [] \<or> b \<Longrightarrow> \<exists>n. int_digits b acc s = Some n"
  by (induction s arbitrary: b acc) auto

lemma is_digit_not_sign: "is_digit c \<Longrightarrow> c \<noteq> CHR ''-'' \<and> c \<noteq> CHR ''+''"
  by (auto simp: is_digit_def)

lemma int_strip_digits: "re_digits s \<Longrightarrow> str_strip_chars is_int_space s = s"
proof -
  assume a: "re_digits s"
  then have "s \<noteq> []" "is_digit (hd s)" "is_digit (last s)"
    by (auto simp: re_digits_def list_all_iff)
  moreover have "\<And>c. is_digit c \<Longrightarrow> \<not> is_int_space c"
    by (auto simp: is_digit_def is_int_space_def Let_def)
  ultimately show ?thesis
    by (intro str_strip_chars_id) simp
qed

lemma filter_digits: "list_all is_digit s \<Longrightarrow> filter is_digit s = s"
  by (induction s) simp_all

lemma py_int_digits:
  assumes "re_digits s" "\<not> exceeds_limit limit (length s)"
  shows "\<exists>n. py_int limit s = Some n"
proof -
  from assms(1) obtain c cs where s: "s = c # cs" by (cases s) (auto simp: re_digits_def)
  with assms(1) have c: "is_digit c" and all: "list_all is_digit (c # cs)"
    by (auto simp: re_digits_def)
  from int_digits_Some[OF all, of False 0] obtain n where "int_digits False 0 (c # cs) = Some n"
    by auto
  moreover have "\<not> exceeds_limit limit (length (filter is_digit (c # cs)))"
    unfolding filter_digits[OF all] using assms(2) s by simp
  ultimately show ?thesis
    using is_digit_not_sign[OF c] int_strip_digits[OF assms(1)] s
    by (simp add: py_int_def Let_def del: filter.simps)
qed

lemma py_int_exceeds:
  assumes "re_digits s" "exceeds_limit limit (length s)"
  shows "py_int limit s = None"
proof -
  from assms(1) obtain c cs where s: "s = c # cs" by (cases s) (auto simp: re_digits_def)
  with assms(1) have c: "is_digit c" and all: "list_all is_digit (c # cs)"
    by (auto simp: re_digits_def)
  have "exceeds_limit limit (length (filter is_digit (c # cs)))"
    unfolding filter_digits[OF all] using assms(2) s by simp
  then show ?thesis
    using is_digit_not_sign[OF c] int_strip_digits[OF assms(1)] s
    by (simp add: py_int_def Let_def del: filter.simps)
qed

lemma those_map_Some:
  "(\<And>x. x \<in> set xs \<Longrightarrow> \<exists>y. f x = Some y) \<Longrightarrow> \<exists>ys. those (map f xs) = Some ys"
  by (induction xs) (auto split: option.splits)

lemma those_eq_Some: "those xs = Some ys \<Longrightarrow> xs = map Some ys"
  by (induction xs arbitrary: ys) (auto split: option.splits)

lemma those_map_None: "x \<in> set xs \<Longrightarrow> f x = None \<Longrightarrow> those (map f xs) = None"
  by (induction xs) (auto split: option.splits)

lemma version_sort_key_Some:
  "re_version v \<Longrightarrow> within_limit limit v \<Longrightarrow> \<exists>k. version_sort_key limit v = Some k"
  unfolding version_sort_key_def re_version_def within_limit_def Let_def
  by (intro those_map_Some py_int_digits) (auto simp: list_all_iff)

lemma version_sort_key_None:
  assumes "re_version v" "\<not> within_limit limit v"
  shows "version_sort_key limit v = None"
proof -
  from assms(2) obtain part where p: "part \<in> set (str_split CHR ''.'' v)"
    and e: "exceeds_limit limit (length part)"
    by (auto simp: within_limit_def list_all_iff)
  from assms(1) p have "re_digits part" by (auto simp: re_version_def Let_def list_all_iff)
  from py_int_exceeds[OF this e] p show ?thesis
    unfolding version_sort_key_def by (rule those_map_None[rotated])
qed

lemma within_limit_no_limit: "within_limit 0 v"
  by (simp add: within_limit_def exceeds_limit_def list_all_iff)

lemma sorted_versions_Some:
  "list_all re_version vs \<Longrightarrow> list_all (within_limit limit) vs
   \<Longrightarrow> \<exists>out. sorted_versions limit vs = Some out"
proof -
  assume "list_all re_version vs" "list_all (within_limit limit) vs"
  then have "\<exists>ks. those (map (version_sort_key limit) vs) = Some ks"
    by (intro those_map_Some version_sort_key_Some) (auto simp: list_all_iff)
  then show ?thesis by (auto simp: sorted_versions_def)
qed

lemma sorted_versions_None:
  assumes "list_all re_version vs" "\<not> list_all (within_limit limit) vs"
  shows "sorted_versions limit vs = None"
proof -
  from assms obtain v where v: "v \<in> set vs" "re_version v" "\<not> within_limit limit v"
    by (auto simp: list_all_iff)
  from v(1) version_sort_key_None[OF v(2,3)]
  have "those (map (version_sort_key limit) vs) = None" by (rule those_map_None)
  then show ?thesis by (simp add: sorted_versions_def)
qed

lemma sorted_versions_sorted:
  assumes "sorted_versions limit vs = Some out"
  shows "\<exists>ks. map (version_sort_key limit) out = map Some ks \<and> sorted (rev ks) \<and> mset out = mset vs"
proof -
  from assms obtain ks0 where ks0: "those (map (version_sort_key limit) vs) = Some ks0"
    and out: "out = map snd (rev (sort_key fst (rev (zip ks0 vs))))"
    by (auto simp: sorted_versions_def split: option.splits)
  from those_eq_Some[OF ks0] have m: "map (version_sort_key limit) vs = map Some ks0" .
  then have len: "length ks0 = length vs" by (metis length_map)
  let ?ps = "rev (sort_key fst (rev (zip ks0 vs)))"
  let ?ks = "map fst ?ps"
  have pairs: "\<And>p. p \<in> set (zip ks0 vs) \<Longrightarrow> version_sort_key limit (snd p) = Some (fst p)"
  proof -
    fix p assume "p \<in> set (zip ks0 vs)"
    then obtain i where i: "i < length vs" "p = (ks0 ! i, vs ! i)"
      using len by (auto simp: set_zip)
    with m len have "version_sort_key limit (vs ! i) = Some (ks0 ! i)"
      by (metis nth_map)
    with i show "version_sort_key limit (snd p) = Some (fst p)" by simp
  qed
  have "set ?ps = set (zip ks0 vs)" by simp
  with pairs have "map (version_sort_key limit) out = map Some ?ks"
    unfolding out by (simp add: comp_def)
  moreover have "sorted (rev ?ks)"
    by (simp add: rev_map[symmetric])
  moreover have "mset out = mset vs"
  proof -
    have "mset ?ps = mset (zip ks0 vs)" by simp
    then have "mset (map snd ?ps) = mset (map snd (zip ks0 vs))" by (metis mset_map)
    then show ?thesis using len by (simp add: out)
  qed
  ultimately show ?thesis by blast
qed

section \<open>Facts about loading and parsing\<close>

lemma set_dict_set_subset: "set (dict_set d k v) \<subseteq> insert (k, v) (set d)"
  by (induction d k v rule: dict_set.induct) auto

lemma list_all_dict_set: "list_all P d \<Longrightarrow> P (k, v) \<Longrightarrow> list_all P (dict_set d k v)"
  using set_dict_set_subset[of d k v] by (auto simp: list_all_iff)

lemma dict_get_list_all: "list_all P d \<Longrightarrow> P' dflt \<Longrightarrow> (\<And>k v. P (k, v) \<Longrightarrow> P' v) \<Longrightarrow> P' (dict_get d k dflt)"
  by (auto simp: dict_get_def list_all_iff split: option.splits dest!: map_of_SomeD)

lemma load_entry_cases:
  "load_entry platform u item = u
   \<or> (\<exists>v s. re_version v \<and> s \<in> {''pass'', ''fail'', ''not-run''}
         \<and> load_entry platform u item = dict_set u v (dict_set (dict_get u v []) platform s))"
  by (cases item) (auto simp: load_entry_def Let_def)

lemma updates_inv_Nil [simp]: "updates_inv []"
  by (simp add: updates_inv_def)

lemma updates_inv_load_entry:
  assumes "updates_inv u" "platform \<in> set PLATFORMS"
  shows "updates_inv (load_entry platform u item)"
proof -
  let ?P = "\<lambda>ps. fst ps \<in> set PLATFORMS \<and> snd ps \<in> {''pass'', ''fail'', ''not-run''}"
  let ?Q = "\<lambda>vr. re_version (fst vr) \<and> distinct (map fst (snd vr)) \<and> list_all ?P (snd vr)"
  have u: "distinct (map fst u)" "list_all ?Q u" using assms(1) by (simp_all add: updates_inv_def)
  {
    fix v s assume v: "re_version v" and s: "s \<in> {''pass'', ''fail'', ''not-run''}"
    let ?r = "dict_get u v []"
    have r: "distinct (map fst ?r) \<and> list_all ?P ?r"
      by (rule dict_get_list_all[OF u(2)]) auto
    have "?Q (v, dict_set ?r platform s)"
      using v s r assms(2) by (simp add: distinct_dict_set list_all_dict_set)
    then have "list_all ?Q (dict_set u v (dict_set ?r platform s))"
      using u(2) by (rule list_all_dict_set[rotated])
    then have "updates_inv (dict_set u v (dict_set ?r platform s))"
      using u(1) by (simp add: updates_inv_def distinct_dict_set)
  }
  then show ?thesis using load_entry_cases[of platform u item] assms(1) by auto
qed

lemma updates_inv_load_file:
  assumes "updates_inv u" "load_file u file = Inr u'"
  shows "updates_inv u'"
proof -
  have f: "\<And>platform results. platform \<in> set PLATFORMS \<Longrightarrow>
      updates_inv (fold (\<lambda>item u. load_entry platform u item) results u)"
    by (rule fold_invariant[where P = updates_inv]) (simp_all add: assms(1) updates_inv_load_entry)
  show ?thesis
    using assms f
    by (auto simp: load_file_def Let_def split: sum.splits json.splits if_splits)
qed

lemma updates_inv_load_files:
  "updates_inv u \<Longrightarrow> load_files u files = Inr u' \<Longrightarrow> updates_inv u'"
  by (induction files arbitrary: u) (auto split: sum.splits dest: updates_inv_load_file)

lemma updates_inv_load_results: "load_results results_dir = Inr u \<Longrightarrow> updates_inv u"
  by (cases results_dir) (auto simp: load_results_def dest: updates_inv_load_files[rotated])

lemma load_files_append:
  "load_files u (xs @ ys) = (case load_files u xs of Inl e \<Rightarrow> Inl e | Inr u' \<Rightarrow> load_files u' ys)"
  by (induction xs arbitrary: u) (auto split: sum.splits)

lemma rows_inv_Nil [simp]: "rows_inv []"
  by (simp add: rows_inv_def)

lemma rows_inv_dict_set: "rows_inv rows \<Longrightarrow> re_version v \<Longrightarrow> rows_inv (dict_set rows v r)"
  by (auto simp: rows_inv_def distinct_dict_set keys_dict_set)

lemma parse_line_cases:
  "parse_line (columns, rows) line = (columns, rows)
   \<or> (columns = [] \<and> parse_line (columns, rows) line = (line_parts line, rows))
   \<or> (\<exists>v r. re_version v \<and> parse_line (columns, rows) line = (columns, dict_set rows v (parsed_row r)))"
  by (auto simp: parse_line_def Let_def)

lemma rows_inv_parse_line: "rows_inv (snd st) \<Longrightarrow> rows_inv (snd (parse_line st line))"
  using parse_line_cases[of "fst st" "snd st" line] by (cases st) (auto simp: rows_inv_dict_set)

lemma rows_inv_parse_table: "rows_inv (parse_table table_file)"
proof (cases table_file)
  case None
  then show ?thesis by (simp add: parse_table_def)
next
  case (Some content)
  have "rows_inv (snd (fold (\<lambda>line st. parse_line st line) (str_splitlines content) ([], [])))"
    by (rule fold_invariant[where P = "\<lambda>st. rows_inv (snd st)"]) (simp_all add: rows_inv_parse_line)
  with Some show ?thesis by (simp add: parse_table_def)
qed

lemma rows_inv_merge_rows: "rows_inv rows \<Longrightarrow> re_version v \<Longrightarrow> rows_inv (merge_rows v rows u now)"
  by (simp add: merge_rows_def rows_inv_dict_set)

lemma write_table_Inr:
  assumes "rows_inv rows" "list_all (within_limit limit) (map fst rows)"
  shows "\<exists>content. write_table limit rows = Inr content"
proof -
  from assms(1) have "list_all re_version (map fst rows)" by (simp add: rows_inv_def)
  from sorted_versions_Some[OF this assms(2)] show ?thesis by (auto simp: write_table_def)
qed

lemma write_table_Inl:
  assumes "rows_inv rows" "\<not> list_all (within_limit limit) (map fst rows)"
  shows "write_table limit rows = Inl ValueError"
proof -
  from assms(1) have "list_all re_version (map fst rows)" by (simp add: rows_inv_def)
  from sorted_versions_None[OF this assms(2)] show ?thesis by (simp add: write_table_def)
qed

lemma within_limit_merge_rows:
  "list_all (within_limit limit) (map fst (merge_rows v rows u now))
   = (within_limit limit v \<and> list_all (within_limit limit) (map fst rows))"
  using set_keys_dict_set[of rows v "merged_row v rows u now"]
  by (auto simp: merge_rows_def list_all_iff)

lemma main_valid:
  assumes "re_version (normalize_version arg_version)" "load_results results_dir = Inr u"
  shows "main limit arg_version results_dir now table_file
         = (case write_table limit
                   (merge_rows (normalize_version arg_version) (parse_table table_file) u now) of
              Inl e \<Rightarrow> (Inl e, table_file)
            | Inr content \<Rightarrow> (Inr 0, Some content))"
  using assms by (simp add: main_def Let_def)

lemma main_written:
  assumes "re_version (normalize_version arg_version)" "load_results results_dir = Inr u"
    and "within_limit limit (normalize_version arg_version)"
    and "list_all (within_limit limit) (map fst (parse_table table_file))"
  shows "\<exists>content. write_table limit
             (merge_rows (normalize_version arg_version) (parse_table table_file) u now) = Inr content
           \<and> main limit arg_version results_dir now table_file = (Inr 0, Some content)"
proof -
  let ?rows = "merge_rows (normalize_version arg_version) (parse_table table_file) u now"
  have "rows_inv ?rows"
    using assms(1) by (intro rows_inv_merge_rows rows_inv_parse_table)
  moreover have "list_all (within_limit limit) (map fst ?rows)"
    unfolding within_limit_merge_rows using assms(3,4) by blast
  ultimately obtain content where "write_table limit ?rows = Inr content"
    using write_table_Inr by blast
  then show ?thesis by (simp add: main_valid[OF assms(1,2)])
qed

lemma main_refused:
  assumes "re_version (normalize_version arg_version)" "load_results results_dir = Inr u"
    and "\<not> (within_limit limit (normalize_version arg_version)
             \<and> list_all (within_limit limit) (map fst (parse_table table_file)))"
  shows "main limit arg_version results_dir now table_file = (Inl ValueError, table_file)"
proof -
  let ?rows = "merge_rows (normalize_version arg_version) (parse_table table_file) u now"
  have "rows_inv ?rows"
    using assms(1) by (intro rows_inv_merge_rows rows_inv_parse_table)
  moreover have "\<not> list_all (within_limit limit) (map fst ?rows)"
    unfolding within_limit_merge_rows using assms(3) by blast
  ultimately have "write_table limit ?rows = Inl ValueError" by (rule write_table_Inl)
  then show ?thesis by (simp add: main_valid[OF assms(1,2)])
qed

section \<open>Facts about splitting, joining and lines\<close>

lemma str_split_no_sep: "sep \<notin> set s \<Longrightarrow> str_split sep s = [s]"
  by (induction s) auto

lemma str_split_append: "sep \<notin> set a \<Longrightarrow> str_split sep (a @ sep # b) = a # str_split sep b"
  by (induction a) auto

lemma str_split_parts_no_sep: "p \<in> set (str_split sep s) \<Longrightarrow> sep \<notin> set p"
  by (induction s arbitrary: p) (auto split: if_splits list.splits)

lemma str_join_Cons_Cons: "str_join sep ((c # w) # ws) = c # str_join sep (w # ws)"
  by (cases ws) auto

lemma str_join_Nil_Cons: "ws \<noteq> [] \<Longrightarrow> str_join sep ([] # ws) = sep @ str_join sep ws"
  by (cases ws) auto

lemma str_join_split: "str_join [sep] (str_split sep s) = s"
  by (induction s) (auto simp: str_join_Cons_Cons str_join_Nil_Cons split: list.splits)

lemma str_split_join:
  "parts \<noteq> [] \<Longrightarrow> (\<And>p. p \<in> set parts \<Longrightarrow> sep \<notin> set p) \<Longrightarrow>
   str_split sep (str_join [sep] parts) = parts"
proof (induction "[sep]" parts rule: str_join.induct)
  case 1
  then show ?case by simp
next
  case (2 x)
  then show ?case by (simp add: str_split_no_sep)
next
  case (3 x y ys)
  then show ?case by (simp add: str_split_append)
qed

lemma is_linebreak_simps [simp]:
  "is_linebreak CHR 0x0A" "is_linebreak CHR 0x0D"
  by (simp_all add: is_linebreak_def)

lemma str_splitlines_line:
  "\<not> list_ex is_linebreak l \<Longrightarrow> str_splitlines (l @ CHR 0x0A # rest) = l # str_splitlines rest"
  by (induction l) auto

lemma str_join_lines:
  "ls \<noteq> [] \<Longrightarrow> str_join [CHR 0x0A] ls @ [CHR 0x0A] = concat (map (\<lambda>l. l @ [CHR 0x0A]) ls)"
  by (induction "[CHR 0x0A]" ls rule: str_join.induct) auto

lemma str_splitlines_concat:
  "(\<And>l. l \<in> set ls \<Longrightarrow> \<not> list_ex is_linebreak l) \<Longrightarrow>
   str_splitlines (concat (map (\<lambda>l. l @ [CHR 0x0A]) ls)) = ls"
  by (induction ls) (simp_all add: str_splitlines_line)

lemma str_splitlines_join:
  "ls \<noteq> [] \<Longrightarrow> (\<And>l. l \<in> set ls \<Longrightarrow> \<not> list_ex is_linebreak l) \<Longrightarrow>
   str_splitlines (str_join [CHR 0x0A] ls @ [CHR 0x0A]) = ls"
  by (simp add: str_join_lines str_splitlines_concat)

lemma str_splitlines_no_linebreak:
  "l \<in> set (str_splitlines s) \<Longrightarrow> \<not> list_ex is_linebreak l"
proof (induction s arbitrary: l rule: str_splitlines.induct)
  case 1
  then show ?case by simp
next
  case (2 c cs)
  show ?case
  proof (cases "c = CHR 0x0D")
    case True
    show ?thesis
    proof (cases cs)
      case Nil
      with True "2.prems" show ?thesis by simp
    next
      case (Cons d ds)
      show ?thesis
      proof (cases "d = CHR 0x0A")
        case T: True
        with True Cons "2.prems" have "l = [] \<or> l \<in> set (str_splitlines ds)" by simp
        with "2.IH"(1)[OF True Cons T] show ?thesis by auto
      next
        case F: False
        with True Cons "2.prems" have "l = [] \<or> l \<in> set (str_splitlines (d # ds))" by simp
        with "2.IH"(2)[OF True Cons F] show ?thesis by auto
      qed
    qed
  next
    case False
    show ?thesis
    proof (cases "is_linebreak c")
      case True
      with False "2.prems" have "l = [] \<or> l \<in> set (str_splitlines cs)" by simp
      with "2.IH"(3)[OF False True] show ?thesis by auto
    next
      case F: False
      show ?thesis
      proof (cases "str_splitlines cs")
        case Nil
        with False F "2.prems" show ?thesis by simp
      next
        case (Cons l' ls)
        with False F "2.prems" have "l = c # l' \<or> l \<in> set ls" by simp
        moreover have "\<not> list_ex is_linebreak l'" "\<And>x. x \<in> set ls \<Longrightarrow> \<not> list_ex is_linebreak x"
          using "2.IH"(4)[OF False F] Cons by simp_all
        ultimately show ?thesis using F by auto
      qed
    qed
  qed
qed

section \<open>Facts about characters\<close>

lemma lower_char_idem: "lower_char (lower_char c) = lower_char c"
  by (auto simp: lower_char_def Let_def)

lemma is_space_lower_char: "is_space (lower_char c) = is_space c"
  by (auto simp: lower_char_def is_space_def Let_def)

lemma is_linebreak_lower_char: "is_linebreak (lower_char c) = is_linebreak c"
  by (auto simp: lower_char_def is_linebreak_def Let_def)

lemma lower_char_bar: "lower_char c = CHR ''|'' \<longleftrightarrow> c = CHR ''|''"
  by (auto simp: lower_char_def Let_def char_of_eq_iff take_bit_eq_mod)

section \<open>Facts about reading back a written line\<close>

lemma str_strip_Cons_space: "is_space a \<Longrightarrow> str_strip (a # s) = str_strip s"
  by (simp add: str_strip_def str_strip_chars_def str_lstrip_def)

lemma str_strip_snoc_space:
  assumes "is_space b"
  shows "str_strip (s @ [b]) = str_strip s"
proof (cases "\<forall>x\<in>set s. is_space x")
  case True
  then have d: "dropWhile is_space s = []" by (simp add: dropWhile_eq_Nil_conv)
  from True assms show ?thesis
    by (simp add: str_strip_def str_strip_chars_def str_lstrip_def str_rstrip_def dropWhile_append d)
next
  case False
  with assms show ?thesis
    by (auto simp: str_strip_def str_strip_chars_def str_lstrip_def str_rstrip_def dropWhile_append)
qed

lemma is_space_blank [simp]: "is_space CHR '' ''"
  by (simp add: is_space_def)

lemma strip_cell: "str_strip c = c \<Longrightarrow> str_strip (CHR '' '' # c @ '' '') = c"
  using str_strip_snoc_space[of "CHR '' ''" "CHR '' '' # c"]
  by (simp add: str_strip_Cons_space)

lemma strip_bars:
  "str_strip_chars (\<lambda>c. c = CHR ''|'') (CHR ''|'' # CHR '' '' # x @ '' |'') = CHR '' '' # x @ '' ''"
  by (simp add: str_strip_chars_def str_lstrip_def str_rstrip_def)

lemma split_cell:
  "CHR ''|'' \<notin> set c \<Longrightarrow>
   str_split CHR ''|'' (CHR '' '' # c @ CHR '' '' # CHR ''|'' # rest)
     = (CHR '' '' # c @ '' '') # str_split CHR ''|'' rest"
  using str_split_append[of "CHR ''|''" "CHR '' '' # c @ '' ''" rest] by simp

lemma split_last_cell:
  "CHR ''|'' \<notin> set c \<Longrightarrow> str_split CHR ''|'' (CHR '' '' # c @ '' '') = [CHR '' '' # c @ '' '']"
  by (simp add: str_split_no_sep)

lemma line_parts_cells:
  assumes "CHR ''|'' \<notin> set v" "CHR ''|'' \<notin> set c1" "CHR ''|'' \<notin> set c2" "CHR ''|'' \<notin> set c3"
    "CHR ''|'' \<notin> set c4" "CHR ''|'' \<notin> set c5" "CHR ''|'' \<notin> set c6"
  shows "line_parts (''| '' @ v @ '' | '' @ c1 @ '' | '' @ c2 @ '' | '' @ c3 @ '' | '' @ c4
            @ '' | '' @ c5 @ '' | '' @ c6 @ '' |'')
         = map str_strip [CHR '' '' # v @ '' '', CHR '' '' # c1 @ '' '', CHR '' '' # c2 @ '' '',
             CHR '' '' # c3 @ '' '', CHR '' '' # c4 @ '' '', CHR '' '' # c5 @ '' '', CHR '' '' # c6 @ '' '']"
proof -
  let ?x = "v @ '' | '' @ c1 @ '' | '' @ c2 @ '' | '' @ c3 @ '' | '' @ c4
            @ '' | '' @ c5 @ '' | '' @ c6"
  let ?line = "CHR ''|'' # CHR '' '' # ?x @ '' |''"
  have s: "str_strip ?line = ?line"
    unfolding str_strip_def by (rule str_strip_chars_id) (simp add: is_space_def)
  have "str_split CHR ''|'' (CHR '' '' # ?x @ '' '')
      = [CHR '' '' # v @ '' '', CHR '' '' # c1 @ '' '', CHR '' '' # c2 @ '' '',
             CHR '' '' # c3 @ '' '', CHR '' '' # c4 @ '' '', CHR '' '' # c5 @ '' '', CHR '' '' # c6 @ '' '']"
    using assms by (simp add: split_cell split_last_cell del: str_split.simps)
  then have "line_parts ?line = map str_strip [CHR '' '' # v @ '' '', CHR '' '' # c1 @ '' '', CHR '' '' # c2 @ '' '',
             CHR '' '' # c3 @ '' '', CHR '' '' # c4 @ '' '', CHR '' '' # c5 @ '' '', CHR '' '' # c6 @ '' '']"
    unfolding line_parts_def s strip_bars by simp
  then show ?thesis by simp
qed

lemma set_str_join: "set (str_join sep parts) \<subseteq> set sep \<union> \<Union> (set ` set parts)"
  by (induction sep parts rule: str_join.induct) auto

lemma re_version_chars:
  assumes "re_version v" "c \<in> set v"
  shows "is_digit c \<or> c = CHR ''.''"
proof -
  have "v = str_join ''.'' (str_split CHR ''.'' v)" by (simp add: str_join_split)
  then have "c \<in> set (str_join ''.'' (str_split CHR ''.'' v))" using assms(2) by simp
  with set_str_join[of "''.''" "str_split CHR ''.'' v"]
  have "c = CHR ''.'' \<or> (\<exists>p \<in> set (str_split CHR ''.'' v). c \<in> set p)" by auto
  moreover have "\<And>p. p \<in> set (str_split CHR ''.'' v) \<Longrightarrow> list_all is_digit p"
    using assms(1) by (auto simp: re_version_def Let_def re_digits_def list_all_iff)
  ultimately show ?thesis by (auto simp: list_all_iff)
qed

lemma version_char_facts:
  "is_digit c \<or> c = CHR ''.'' \<Longrightarrow> c \<noteq> CHR ''|'' \<and> \<not> is_linebreak c \<and> \<not> is_space c \<and> c \<noteq> CHR ''v'' \<and> c \<noteq> CHR ''-''"
  by (auto simp: is_digit_def is_linebreak_def is_space_def Let_def)

lemma clean_cell_version: "re_version v \<Longrightarrow> clean_cell v"
proof -
  assume a: "re_version v"
  then have n: "v \<noteq> []" using re_version_hd by blast
  from a have c: "\<And>c. c \<in> set v \<Longrightarrow> c \<noteq> CHR ''|'' \<and> \<not> is_linebreak c \<and> \<not> is_space c"
    using re_version_chars version_char_facts by blast
  have "str_strip v = v"
    unfolding str_strip_def using n c by (intro str_strip_chars_id) simp
  with c show ?thesis by (auto simp: clean_cell_def list_ex_iff)
qed

lemma normalize_version_id: "re_version v \<Longrightarrow> normalize_version v = v"
proof -
  assume a: "re_version v"
  then have "str_strip v = v" using clean_cell_version by (simp add: clean_cell_def)
  moreover have "hd v \<noteq> CHR ''v''" "v \<noteq> []"
    using re_version_hd[OF a] by (auto simp: is_digit_def)
  ultimately show ?thesis by (simp add: normalize_version_def str_lstrip_id)
qed

lemma not_re_dashes_version: "re_version v \<Longrightarrow> \<not> re_dashes v"
  using re_version_hd[of v] by (cases v) (auto simp: re_dashes_def is_digit_def)

lemma clean_row_shape:
  assumes "clean_row r"
  obtains c1 c2 c3 c4 c5 c6 where
    "r = [(''linux'', c1), (''mac'', c2), (''windows'', c3), (''rockylinux8'', c4),
          (''ubuntu20.04'', c5), (''last_tested_utc'', c6)]"
    "clean_status c1" "clean_status c2" "clean_status c3" "clean_status c4" "clean_status c5"
    "clean_cell c6"
proof -
  from assms have m: "map fst r = [''linux'', ''mac'', ''windows'', ''rockylinux8'', ''ubuntu20.04'', ''last_tested_utc'']"
    by (simp add: clean_row_def PLATFORMS_def)
  then obtain c1 c2 c3 c4 c5 c6 where r: "r = [(''linux'', c1), (''mac'', c2), (''windows'', c3), (''rockylinux8'', c4),
          (''ubuntu20.04'', c5), (''last_tested_utc'', c6)]"
    by (auto simp: map_eq_Cons_conv)
  with assms have "clean_status c1" "clean_status c2" "clean_status c3" "clean_status c4" "clean_status c5"
    "clean_cell c6"
    by (simp_all add: clean_row_def)
  with r show ?thesis by (rule that)
qed

lemma parse_line_table_line:
  assumes "re_version v" "clean_row r"
  shows "parse_line (''Codex version'' # PLATFORMS @ [''last_tested_utc''], rows) (table_line v r)
         = (''Codex version'' # PLATFORMS @ [''last_tested_utc''], dict_set rows v r)"
proof -
  from assms(2) obtain c1 c2 c3 c4 c5 c6 where
    r: "r = [(''linux'', c1), (''mac'', c2), (''windows'', c3), (''rockylinux8'', c4),
          (''ubuntu20.04'', c5), (''last_tested_utc'', c6)]"
    and c: "clean_status c1" "clean_status c2" "clean_status c3" "clean_status c4" "clean_status c5"
      "clean_cell c6"
    by (rule clean_row_shape)
  have cv: "clean_cell v" using assms(1) by (rule clean_cell_version)
  let ?parts = "[v, c1, c2, c3, c4, c5, c6]"
  have tl: "table_line v r = ''| '' @ v @ '' | '' @ c1 @ '' | '' @ c2 @ '' | '' @ c3 @ '' | '' @ c4
            @ '' | '' @ c5 @ '' | '' @ c6 @ '' |''"
    by (simp add: table_line_def r dict_get_def)
  have sw: "str_startswith (table_line v r) ''|''"
    by (simp add: tl str_startswith_def)
  have lp: "line_parts (table_line v r) = ?parts"
    unfolding tl using c cv
    by (subst line_parts_cells) (simp_all add: clean_status_def clean_cell_def strip_cell)
  let ?pairs = "[(''Codex version'', v), (''linux'', c1), (''mac'', c2), (''windows'', c3),
      (''rockylinux8'', c4), (''ubuntu20.04'', c5), (''last_tested_utc'', c6)]"
  have nd: "\<not> re_dashes v"
    using assms(1) by (rule not_re_dashes_version)
  have d: "dict_of_pairs ?pairs = ?pairs"
    by (rule keys_dict_of_pairs) simp
  have g: "dict_get ?pairs ''Codex version'' '''' = v"
    by (simp add: dict_get_def)
  have st: "\<And>s. clean_status s \<Longrightarrow>
      (let t = str_lower (str_strip s) in if t = [] then ''not-run'' else t) = s"
    by (simp add: clean_status_def clean_cell_def)
  have p: "parsed_row ?pairs = r"
    unfolding parsed_row_def PLATFORMS_def dict_of_pairs_def
    using c(6) by (simp add: dict_get_def st c r clean_cell_def)
  show ?thesis
    unfolding parse_line_def
    by (simp add: sw lp nd PLATFORMS_def d g normalize_version_id[OF assms(1)] assms(1) p Let_def)
qed

lemma parse_preamble:
  "fold (\<lambda>line st. parse_line st line) PREAMBLE ([], [])
   = (''Codex version'' # PLATFORMS @ [''last_tested_utc''], [])"
  by code_simp

lemma preamble_no_linebreak: "list_all (\<lambda>l. \<not> list_ex is_linebreak l) PREAMBLE"
  by code_simp

lemma fold_invariant_set:
  assumes "P s" and "\<And>x s. x \<in> set xs \<Longrightarrow> P s \<Longrightarrow> P (f x s)"
  shows "P (fold f xs s)"
  using assms by (induction xs arbitrary: s) simp_all

lemma table_line_no_linebreak:
  assumes "re_version v" "clean_row r"
  shows "\<not> list_ex is_linebreak (table_line v r)"
proof -
  from assms(2) obtain c1 c2 c3 c4 c5 c6 where
    r: "r = [(''linux'', c1), (''mac'', c2), (''windows'', c3), (''rockylinux8'', c4),
          (''ubuntu20.04'', c5), (''last_tested_utc'', c6)]"
    and c: "clean_status c1" "clean_status c2" "clean_status c3" "clean_status c4" "clean_status c5"
      "clean_cell c6"
    by (rule clean_row_shape)
  have cv: "clean_cell v" using assms(1) by (rule clean_cell_version)
  have b: "\<not> is_linebreak CHR ''|''" "\<not> is_linebreak CHR '' ''" by (simp_all add: is_linebreak_def)
  have tl: "table_line v r = ''| '' @ v @ '' | '' @ c1 @ '' | '' @ c2 @ '' | '' @ c3 @ '' | '' @ c4
            @ '' | '' @ c5 @ '' | '' @ c6 @ '' |''"
    by (simp add: table_line_def r dict_get_def)
  show ?thesis
    unfolding tl using c cv b by (simp add: clean_status_def clean_cell_def)
qed

lemma fold_parse_lines:
  assumes "\<And>v. v \<in> set vs \<Longrightarrow> re_version v \<and> clean_row (f v)"
  shows "fold (\<lambda>line st. parse_line st line) (map (\<lambda>v. table_line v (f v)) vs)
           (''Codex version'' # PLATFORMS @ [''last_tested_utc''], acc)
         = (''Codex version'' # PLATFORMS @ [''last_tested_utc''],
            dict_update acc (map (\<lambda>v. (v, f v)) vs))"
  using assms
proof (induction vs arbitrary: acc)
  case Nil
  then show ?case by simp
next
  case (Cons v vs)
  have "re_version v" "clean_row (f v)" using Cons.prems by simp_all
  from parse_line_table_line[OF this] Cons.IH[of "dict_set acc v (f v)"] Cons.prems
  show ?case by simp
qed

lemma dict_get_member: "distinct (map fst d) \<Longrightarrow> (k, v) \<in> set d \<Longrightarrow> dict_get d k dflt = v"
  by (simp add: dict_get_def)

lemma parse_formatted_table:
  assumes dv: "distinct vs" and ok: "\<And>v. v \<in> set vs \<Longrightarrow> re_version v \<and> clean_row (f v)"
  shows "parse_table (Some (str_join [CHR 0x0A] (PREAMBLE @ map (\<lambda>v. table_line v (f v)) vs)
                            @ [CHR 0x0A]))
         = map (\<lambda>v. (v, f v)) vs"
proof -
  let ?lines = "map (\<lambda>v. table_line v (f v)) vs"
  let ?content = "str_join [CHR 0x0A] (PREAMBLE @ ?lines) @ [CHR 0x0A]"
  have nl: "\<And>l. l \<in> set (PREAMBLE @ ?lines) \<Longrightarrow> \<not> list_ex is_linebreak l"
    using preamble_no_linebreak ok by (auto simp: list_all_iff table_line_no_linebreak)
  have "PREAMBLE @ ?lines \<noteq> []" by (simp add: PREAMBLE_def)
  then have sl: "str_splitlines ?content = PREAMBLE @ ?lines"
    using nl by (rule str_splitlines_join)
  have "parse_table (Some ?content) = dict_update [] (map (\<lambda>v. (v, f v)) vs)"
    by (simp add: parse_table_def sl parse_preamble fold_parse_lines[OF ok])
  also have "\<dots> = map (\<lambda>v. (v, f v)) vs"
    using keys_dict_of_pairs[of "map (\<lambda>v. (v, f v)) vs"] dv
    by (simp add: dict_of_pairs_def comp_def)
  finally show ?thesis .
qed

lemma write_then_parse:
  assumes "rows_inv rows" "clean_rows rows" "write_table limit rows = Inr content"
  shows "set (parse_table (Some content)) = set rows"
proof -
  from assms(1) have dk: "distinct (map fst rows)" and vk: "list_all re_version (map fst rows)"
    by (simp_all add: rows_inv_def)
  let ?f = "\<lambda>v. dict_get rows v []"
  from assms(3) obtain vs where vs: "sorted_versions limit (map fst rows) = Some vs"
    and w: "content = str_join [CHR 0x0A] (PREAMBLE @ map (\<lambda>v. table_line v (?f v)) vs) @ [CHR 0x0A]"
    by (auto simp: write_table_def split: option.splits)
  from sorted_versions_sorted[OF vs] have ms: "mset vs = mset (map fst rows)" by blast
  then have sv: "set vs = fst ` set rows" by (metis set_mset_mset set_map)
  from ms dk have dv: "distinct vs" by (metis mset_eq_imp_distinct_iff)
  have ok: "\<And>v. v \<in> set vs \<Longrightarrow> re_version v \<and> clean_row (?f v)"
  proof -
    fix v assume "v \<in> set vs"
    then obtain r where m: "(v, r) \<in> set rows" using sv by auto
    then have "?f v = r" using dk by (rule dict_get_member[rotated])
    moreover from m have "re_version v" "clean_row r"
      using vk assms(2) by (auto simp: list_all_iff clean_rows_def)
    ultimately show "re_version v \<and> clean_row (?f v)" by simp
  qed
  have p: "parse_table (Some content) = map (\<lambda>v. (v, ?f v)) vs"
    unfolding w using dv ok by (rule parse_formatted_table)
  have "set (map (\<lambda>v. (v, ?f v)) vs) = set rows"
  proof (intro equalityI subsetI)
    fix x assume "x \<in> set (map (\<lambda>v. (v, ?f v)) vs)"
    then obtain v where v: "v \<in> set vs" "x = (v, ?f v)" by auto
    then obtain r where m: "(v, r) \<in> set rows" using sv by auto
    then have "?f v = r" using dk by (rule dict_get_member[rotated])
    with v m show "x \<in> set rows" by simp
  next
    fix x assume x: "x \<in> set rows"
    then have "fst x \<in> set vs" using sv by auto
    moreover have "?f (fst x) = snd x"
      using dk x by (intro dict_get_member) simp_all
    ultimately show "x \<in> set (map (\<lambda>v. (v, ?f v)) vs)"
      by (cases x) (auto simp: image_iff)
  qed
  with p show ?thesis by simp
qed

text \<open>A version with a part of any length.\<close>

lemma str_split_long: "str_split CHR ''.'' (''1.'' @ replicate n CHR ''0'') = [''1'', replicate n CHR ''0'']"
proof -
  have "CHR ''.'' \<notin> set (replicate n CHR ''0'')" by auto
  then have "str_split CHR ''.'' (replicate n CHR ''0'') = [replicate n CHR ''0'']"
    by (rule str_split_no_sep)
  then show ?thesis by simp
qed

lemma re_version_long: "0 < n \<Longrightarrow> re_version (''1.'' @ replicate n CHR ''0'')"
  unfolding re_version_def Let_def str_split_long
  by (auto simp: re_digits_def is_digit_def list_all_iff)

lemma not_within_limit_long:
  "exceeds_limit limit n \<Longrightarrow> \<not> within_limit limit (''1.'' @ replicate n CHR ''0'')"
  unfolding within_limit_def str_split_long by simp

section \<open>Facts about the cells of parsed and merged rows\<close>

lemma set_str_split: "q \<in> set (str_split sep s) \<Longrightarrow> set q \<subseteq> set s"
proof -
  assume "q \<in> set (str_split sep s)"
  moreover have "set (str_join [sep] (str_split sep s)) = set s" by (simp add: str_join_split)
  moreover have "\<And>parts. q \<in> set parts \<Longrightarrow> set q \<subseteq> set (str_join [sep] parts)"
  proof -
    fix parts show "q \<in> set parts \<Longrightarrow> set q \<subseteq> set (str_join [sep] parts)"
      by (induction "[sep]" parts rule: str_join.induct) auto
  qed
  ultimately show ?thesis by blast
qed

lemma set_str_strip_chars: "set (str_strip_chars P s) \<subseteq> set s"
proof -
  have "set (dropWhile P (rev (dropWhile P s))) \<subseteq> set (rev (dropWhile P s))"
    by (auto dest: set_dropWhileD)
  also have "\<dots> \<subseteq> set s" by (auto dest: set_dropWhileD)
  finally show ?thesis by (simp add: str_strip_chars_def str_rstrip_def str_lstrip_def)
qed

lemma str_strip_idem: "str_strip (str_strip s) = str_strip s"
  unfolding str_strip_def
  using str_strip_chars_ends[of is_space s] by (intro str_strip_chars_id) blast

lemma clean_cell_Nil [simp]: "clean_cell []"
  by (simp add: clean_cell_def str_strip_def str_strip_chars_def str_rstrip_def str_lstrip_def)

lemma clean_cell_str_strip:
  assumes "CHR ''|'' \<notin> set q" "\<not> list_ex is_linebreak q"
  shows "clean_cell (str_strip q)"
  using assms set_str_strip_chars[of is_space q]
  by (auto simp: clean_cell_def str_strip_idem list_ex_iff str_strip_def[symmetric])

lemma clean_cell_line_parts:
  assumes "\<not> list_ex is_linebreak line" "p \<in> set (line_parts line)"
  shows "clean_cell p"
proof -
  let ?s = "str_strip_chars (\<lambda>c. c = CHR ''|'') (str_strip line)"
  from assms(2) obtain q where q: "q \<in> set (str_split CHR ''|'' ?s)" "p = str_strip q"
    by (auto simp: line_parts_def)
  have "set ?s \<subseteq> set line"
    using set_str_strip_chars[of "\<lambda>c. c = CHR ''|''" "str_strip line"]
      set_str_strip_chars[of is_space line]
    by (auto simp: str_strip_def)
  with set_str_split[OF q(1)] have "set q \<subseteq> set line" by blast
  with assms(1) have "\<not> list_ex is_linebreak q" by (auto simp: list_ex_iff)
  moreover have "CHR ''|'' \<notin> set q" using q(1) by (rule str_split_parts_no_sep)
  ultimately show ?thesis unfolding q(2) by (intro clean_cell_str_strip)
qed

lemma set_dict_update_subset: "set (dict_update d other) \<subseteq> set d \<union> set other"
proof (induction other arbitrary: d)
  case Nil
  then show ?case by simp
next
  case (Cons kv other)
  have "set (dict_update (dict_set d (fst kv) (snd kv)) other)
      \<subseteq> set (dict_set d (fst kv) (snd kv)) \<union> set other"
    by (rule Cons.IH)
  also have "\<dots> \<subseteq> insert kv (set d) \<union> set other"
    using set_dict_set_subset[of d "fst kv" "snd kv"] by auto
  finally show ?case by auto
qed

lemma clean_cell_dict_get_zip:
  assumes "\<And>p. p \<in> set parts \<Longrightarrow> clean_cell p"
  shows "clean_cell (dict_get (dict_of_pairs (zip columns parts)) k '''')"
proof (cases "map_of (dict_of_pairs (zip columns parts)) k")
  case None
  then show ?thesis by (simp add: dict_get_def)
next
  case (Some c)
  then have "(k, c) \<in> set (dict_of_pairs (zip columns parts))" by (rule map_of_SomeD)
  then have "(k, c) \<in> set (zip columns parts)"
    using set_dict_update_subset[of "[]" "zip columns parts"] by (auto simp: dict_of_pairs_def)
  then have "c \<in> set parts" by (rule set_zip_rightD)
  with assms Some show ?thesis by (simp add: dict_get_def)
qed

lemma str_strip_lower: "str_strip (str_lower s) = str_lower (str_strip s)"
proof -
  have c: "is_space \<circ> lower_char = is_space" by (auto simp: is_space_lower_char)
  have a: "\<And>xs. dropWhile is_space (map lower_char xs) = map lower_char (dropWhile is_space xs)"
    by (simp add: dropWhile_map c)
  show ?thesis
    by (simp add: str_strip_def str_strip_chars_def str_rstrip_def str_lstrip_def str_lower_def
        a rev_map)
qed

lemma clean_cell_str_lower:
  assumes "clean_cell c"
  shows "clean_cell (str_lower c)"
proof -
  from assms have c: "CHR ''|'' \<notin> set c" "\<And>x. x \<in> set c \<Longrightarrow> \<not> is_linebreak x" "str_strip c = c"
    by (auto simp: clean_cell_def list_ex_iff)
  have "CHR ''|'' \<notin> set (str_lower c)"
  proof
    assume "CHR ''|'' \<in> set (str_lower c)"
    then obtain x where "x \<in> set c" "lower_char x = CHR ''|''" by (auto simp: str_lower_def)
    with c(1) show False by (simp add: lower_char_bar)
  qed
  moreover have "\<not> list_ex is_linebreak (str_lower c)"
    using c(2) by (auto simp: list_ex_iff str_lower_def is_linebreak_lower_char)
  moreover have "str_strip (str_lower c) = str_lower c"
    by (simp add: str_strip_lower c(3))
  ultimately show ?thesis by (simp add: clean_cell_def)
qed

lemma str_lower_idem: "str_lower (str_lower s) = str_lower s"
  by (simp add: str_lower_def lower_char_idem)

lemma clean_status_not_run [simp]: "clean_status ''not-run''"
  by code_simp

lemma clean_status_pass [simp]: "clean_status ''pass''"
  by code_simp

lemma clean_status_fail [simp]: "clean_status ''fail''"
  by code_simp

lemma clean_status_parsed:
  "clean_cell c \<Longrightarrow>
   clean_status (let s = str_lower (str_strip c) in if s = [] then ''not-run'' else s)"
proof -
  assume c: "clean_cell c"
  then have s: "str_strip c = c" by (simp add: clean_cell_def)
  from c have l: "clean_cell (str_lower c)" by (rule clean_cell_str_lower)
  show ?thesis
  proof (cases "str_lower c = []")
    case True
    then show ?thesis by (simp add: s)
  next
    case False
    with l show ?thesis by (simp add: s Let_def clean_status_def str_lower_idem)
  qed
qed

lemma clean_row_parsed_row:
  assumes "\<And>k. clean_cell (dict_get r k '''')"
  shows "clean_row (parsed_row r)"
proof -
  have t: "clean_cell (str_strip (dict_get r ''last_tested_utc'' ''''))"
    using assms[of "''last_tested_utc''"] by (simp add: clean_cell_def)
  show ?thesis
    unfolding parsed_row_def PLATFORMS_def dict_of_pairs_def clean_row_def
    using t by (simp add: clean_status_parsed[OF assms])
qed

lemma parse_line_cases_row:
  "parse_line (columns, rows) line = (columns, rows)
   \<or> (columns = [] \<and> parse_line (columns, rows) line = (line_parts line, rows))
   \<or> (\<exists>v. re_version v \<and> parse_line (columns, rows) line
          = (columns, dict_set rows v (parsed_row (dict_of_pairs (zip columns (line_parts line))))))"
  by (auto simp: parse_line_def Let_def)

lemma clean_rows_parse_line:
  assumes "clean_rows (snd st)" "\<not> list_ex is_linebreak line"
  shows "clean_rows (snd (parse_line st line))"
proof -
  obtain columns rows where st: "st = (columns, rows)" by (cases st)
  have "clean_row (parsed_row (dict_of_pairs (zip columns (line_parts line))))"
    by (intro clean_row_parsed_row clean_cell_dict_get_zip clean_cell_line_parts[OF assms(2)])
  then have "\<And>v. clean_rows (dict_set rows v (parsed_row (dict_of_pairs (zip columns (line_parts line)))))"
    using assms(1) unfolding clean_rows_def st by (intro list_all_dict_set) simp_all
  then show ?thesis
    using parse_line_cases_row[of columns rows line] assms(1) by (auto simp: st)
qed

lemma clean_rows_parse_table: "clean_rows (parse_table table_file)"
proof (cases table_file)
  case None
  then show ?thesis by (simp add: parse_table_def clean_rows_def)
next
  case (Some content)
  have "clean_rows (snd (fold (\<lambda>line st. parse_line st line) (str_splitlines content) ([], [])))"
    by (rule fold_invariant_set[where P = "\<lambda>st. clean_rows (snd st)"])
       (simp_all add: clean_rows_def[of "[]"] clean_rows_parse_line str_splitlines_no_linebreak)
  with Some show ?thesis by (simp add: parse_table_def)
qed

lemma dict_set_new: "k \<notin> fst ` set d \<Longrightarrow> dict_set d k v = d @ [(k, v)]"
  by (induction d) auto

lemma alist_by_keys:
  "distinct (map fst xs) \<Longrightarrow> xs = map (\<lambda>k. (k, the (map_of xs k))) (map fst xs)"
proof (induction xs)
  case Nil
  then show ?case by simp
next
  case (Cons x xs)
  then have "xs = map (\<lambda>k. (k, the (map_of xs k))) (map fst xs)" by simp
  moreover have "\<And>k. k \<in> set (map fst xs) \<Longrightarrow> map_of (x # xs) k = map_of xs k"
    using Cons.prems by (cases x) auto
  ultimately have "xs = map (\<lambda>k. (k, the (map_of (x # xs) k))) (map fst xs)"
    by (metis (no_types, lifting) map_eq_conv)
  then show ?case by (cases x) simp
qed

lemma alist_eqI:
  assumes "map fst xs = map fst ys" "distinct (map fst xs)" "\<And>k. k \<in> fst ` set xs \<Longrightarrow> map_of xs k = map_of ys k"
  shows "xs = ys"
proof -
  have "xs = map (\<lambda>k. (k, the (map_of xs k))) (map fst xs)"
    using assms(2) by (rule alist_by_keys)
  also have "\<dots> = map (\<lambda>k. (k, the (map_of ys k))) (map fst xs)"
    using assms(3) by simp
  also have "\<dots> = ys"
    using alist_by_keys[of ys] assms(1,2) by simp
  finally show ?thesis .
qed

lemma map_of_map_key: "map_of (map (\<lambda>p. (p, g p)) ps) k = (if k \<in> set ps then Some (g k) else None)"
  by (induction ps) auto

lemma dict_update_platforms:
  assumes "distinct ps" "distinct (map fst upd)" "fst ` set upd \<subseteq> set ps"
  shows "dict_update (map (\<lambda>p. (p, g p)) ps) upd = map (\<lambda>p. (p, dict_get upd p (g p))) ps"
proof (rule alist_eqI)
  have s: "fst ` set upd \<subseteq> fst ` set (map (\<lambda>p. (p, g p)) ps)"
    using assms(3) by (simp add: image_image)
  show k: "map fst (dict_update (map (\<lambda>p. (p, g p)) ps) upd) = map fst (map (\<lambda>p. (p, dict_get upd p (g p))) ps)"
    using keys_dict_update_subset[OF s] by (simp add: comp_def)
  show "distinct (map fst (dict_update (map (\<lambda>p. (p, g p)) ps) upd))"
    unfolding k using assms(1) by (simp add: comp_def)
  fix k
  show "map_of (dict_update (map (\<lambda>p. (p, g p)) ps) upd) k = map_of (map (\<lambda>p. (p, dict_get upd p (g p))) ps) k"
    using assms(3)
    by (auto simp: map_of_dict_update[OF assms(2)] map_of_map_key dict_get_def
        split: option.splits dest!: map_of_SomeD)
qed

lemma dict_get_cases: "dict_get d k dflt = dflt \<or> (k, dict_get d k dflt) \<in> set d"
  by (auto simp: dict_get_def split: option.splits dest: map_of_SomeD)

lemma updates_inv_dict_get:
  assumes "updates_inv u"
  shows "distinct (map fst (dict_get u v []))
         \<and> list_all (\<lambda>ps. fst ps \<in> set PLATFORMS \<and> snd ps \<in> {''pass'', ''fail'', ''not-run''})
             (dict_get u v [])"
proof -
  from dict_get_cases[of u v "[]"] show ?thesis
  proof
    assume "dict_get u v [] = []"
    then show ?thesis by simp
  next
    assume m: "(v, dict_get u v []) \<in> set u"
    have "\<forall>vr\<in>set u. distinct (map fst (snd vr))
        \<and> list_all (\<lambda>ps. fst ps \<in> set PLATFORMS \<and> snd ps \<in> {''pass'', ''fail'', ''not-run''}) (snd vr)"
      using assms by (simp add: updates_inv_def list_all_iff)
    from bspec[OF this m] show ?thesis by simp
  qed
qed

lemma merged_row_eq:
  assumes "updates_inv u"
  shows "merged_row v rows u now
         = map (\<lambda>p. (p, dict_get (dict_get u v []) p (dict_get (dict_get rows v []) p ''not-run'')))
             PLATFORMS
           @ [(''last_tested_utc'', now)]"
proof -
  let ?upd = "dict_get u v []" and ?base = "dict_get rows v []"
  have dp: "distinct PLATFORMS" by (simp add: PLATFORMS_def)
  from updates_inv_dict_get[OF assms, of v]
  have du: "distinct (map fst ?upd)" and su: "fst ` set ?upd \<subseteq> set PLATFORMS"
    by (auto simp: list_all_iff)
  have m0: "dict_of_pairs (map (\<lambda>p. (p, dict_get ?base p ''not-run'')) PLATFORMS)
      = map (\<lambda>p. (p, dict_get ?base p ''not-run'')) PLATFORMS"
    using dp by (intro keys_dict_of_pairs) (simp add: comp_def)
  have n: "''last_tested_utc'' \<notin> set PLATFORMS" by (simp add: PLATFORMS_def)
  show ?thesis
    unfolding merged_row_def Let_def m0 dict_update_platforms[OF dp du su]
    using n by (intro dict_set_new) (simp add: image_image)
qed

lemma clean_row_dict_get:
  "clean_row r \<Longrightarrow> p \<in> set PLATFORMS \<Longrightarrow> clean_status (dict_get r p dflt)"
  by (erule clean_row_shape) (auto simp: PLATFORMS_def dict_get_def)

lemma clean_row_merged_row:
  assumes "clean_rows rows" "updates_inv u" "clean_cell now"
  shows "clean_row (merged_row v rows u now)"
proof -
  let ?upd = "dict_get u v []" and ?base = "dict_get rows v []"
  have b: "?base = [] \<or> clean_row ?base"
    using assms(1) unfolding clean_rows_def
    by (rule dict_get_list_all) simp_all
  have u: "\<And>p s. (p, s) \<in> set ?upd \<Longrightarrow> clean_status s"
    using updates_inv_dict_get[OF assms(2), of v] by (auto simp: list_all_iff)
  have "\<And>p. p \<in> set PLATFORMS \<Longrightarrow> clean_status (dict_get ?upd p (dict_get ?base p ''not-run''))"
  proof -
    fix p assume p: "p \<in> set PLATFORMS"
    have "clean_status (dict_get ?base p ''not-run'')"
    proof (cases "?base = []")
      case True
      then show ?thesis by (simp add: dict_get_def)
    next
      case False
      with b p show ?thesis by (simp add: clean_row_dict_get)
    qed
    then show "clean_status (dict_get ?upd p (dict_get ?base p ''not-run''))"
      using u dict_get_cases[of ?upd p "dict_get ?base p ''not-run''"] by metis
  qed
  then show ?thesis
    unfolding merged_row_eq[OF assms(2)] clean_row_def
    using assms(3) by (simp add: comp_def list_all_iff)
qed

lemma clean_rows_merge_rows:
  "clean_rows rows \<Longrightarrow> updates_inv u \<Longrightarrow> clean_cell now \<Longrightarrow> clean_rows (merge_rows v rows u now)"
  unfolding merge_rows_def clean_rows_def
  by (intro list_all_dict_set) (simp_all add: clean_row_merged_row clean_rows_def)

lemma map_of_eq_set:
  "distinct (map fst xs) \<Longrightarrow> distinct (map fst ys) \<Longrightarrow> set xs = set ys \<Longrightarrow> map_of xs = map_of ys"
  by (simp add: map_of_inject_set)

lemma main_then_parse:
  assumes "re_version (normalize_version arg_version)" "load_results results_dir = Inr u"
    "clean_cell now"
    and w: "write_table limit
              (merge_rows (normalize_version arg_version) (parse_table table_file) u now)
            = Inr content"
  shows "main limit arg_version results_dir now table_file = (Inr 0, Some content)
           \<and> set (parse_table (Some content))
               = set (merge_rows (normalize_version arg_version) (parse_table table_file) u now)
           \<and> map_of (parse_table (Some content))
               = (map_of (parse_table table_file))
                   (normalize_version arg_version \<mapsto>
                      merged_row (normalize_version arg_version) (parse_table table_file) u now)"
proof -
  let ?v = "normalize_version arg_version"
  let ?rows = "merge_rows ?v (parse_table table_file) u now"
  have ui: "updates_inv u" using assms(2) by (rule updates_inv_load_results)
  have ri: "rows_inv ?rows"
    using assms(1) by (intro rows_inv_merge_rows rows_inv_parse_table)
  have cr: "clean_rows ?rows"
    using ui assms(3) by (intro clean_rows_merge_rows clean_rows_parse_table)
  from write_then_parse[OF ri cr w] have s: "set (parse_table (Some content)) = set ?rows" .
  have m: "main limit arg_version results_dir now table_file = (Inr 0, Some content)"
    using w by (simp add: main_valid[OF assms(1,2)])
  have "map_of (parse_table (Some content)) = map_of ?rows"
    using rows_inv_parse_table[of "Some content"] ri s
    by (intro map_of_eq_set) (simp_all add: rows_inv_def)
  then have "map_of (parse_table (Some content))
      = (map_of (parse_table table_file))(?v \<mapsto> merged_row ?v (parse_table table_file) u now)"
    by (simp add: merge_rows_def map_of_dict_set)
  with m s show ?thesis by simp
qed

text \<open>Every text that \<^verbatim>\<open>strftime("%Y-%m-%dT%H:%M:%SZ")\<close> returns is made of digits and
  the characters \<^verbatim>\<open>-\<close>, \<^verbatim>\<open>T\<close>, \<^verbatim>\<open>:\<close> and \<^verbatim>\<open>Z\<close>, and so is a clean cell.\<close>

lemma clean_cell_timestamp:
  assumes "list_all (\<lambda>c. is_digit c \<or> c \<in> {CHR ''-'', CHR ''T'', CHR '':'', CHR ''Z''}) s"
  shows "clean_cell s"
proof -
  have c: "\<And>c. c \<in> set s \<Longrightarrow> c \<noteq> CHR ''|'' \<and> \<not> is_linebreak c \<and> \<not> is_space c"
    using assms by (auto simp: list_all_iff is_digit_def is_linebreak_def is_space_def Let_def)
  have "str_strip s = s"
  proof (cases "s = []")
    case True
    then show ?thesis using clean_cell_Nil by (simp add: clean_cell_def)
  next
    case False
    then have "hd s \<in> set s" "last s \<in> set s" by simp_all
    with c False show ?thesis
      unfolding str_strip_def by (intro str_strip_chars_id) blast
  qed
  with c show ?thesis by (auto simp: clean_cell_def list_ex_iff)
qed

section \<open>Properties of the specification\<close>

subsection \<open>Version normalization\<close>

text \<open>
  C10, as amended. \<^const>\<open>normalize_version\<close> strips surrounding white space and then
  every leading \<^verbatim>\<open>v\<close>. Normalizing twice gives the same as normalizing once exactly
  when the first result is empty or does not begin with white space; this holds in
  particular whenever the result matches the dotted-numeric pattern, the only case
  in which it is used as a row key. Two arguments with the same valid normal form
  make \<^const>\<open>main\<close> behave alike, so \<^verbatim>\<open>--version v1.2.3\<close> and \<^verbatim>\<open>--version 1.2.3\<close>
  update the same row \<^verbatim>\<open>1.2.3\<close>; an artifact entry keyed \<^verbatim>\<open>v1.2.3\<close> is loaded as one
  keyed \<^verbatim>\<open>1.2.3\<close> is, and a table line for \<^verbatim>\<open>v1.2.3\<close> is parsed as one for \<^verbatim>\<open>1.2.3\<close> is.
\<close>

theorem normalize_version_idempotent_on_versions:
  "(normalize_version (normalize_version v) = normalize_version v
      \<longleftrightarrow> normalize_version v = [] \<or> \<not> is_space (hd (normalize_version v)))
   \<and> (re_version (normalize_version v)
        \<longrightarrow> normalize_version (normalize_version v) = normalize_version v)
   \<and> (re_version (normalize_version a) \<and> normalize_version a = normalize_version b
        \<longrightarrow> main limit a results_dir now table_file = main limit b results_dir now table_file)
   \<and> normalize_version ''v1.2.3'' = ''1.2.3''
   \<and> normalize_version ''1.2.3'' = ''1.2.3''
   \<and> load_entry platform updates (''v1.2.3'', status) = load_entry platform updates (''1.2.3'', status)
   \<and> parse_line ([''Codex version'', ''linux''], []) ''| v1.2.3 | pass |''
       = parse_line ([''Codex version'', ''linux''], []) ''| 1.2.3 | pass |''"
proof (intro conjI impI)
  show "parse_line ([''Codex version'', ''linux''], []) ''| v1.2.3 | pass |''
       = parse_line ([''Codex version'', ''linux''], []) ''| 1.2.3 | pass |''"
    by code_simp
next
  show "normalize_version (normalize_version v) = normalize_version v
      \<longleftrightarrow> normalize_version v = [] \<or> \<not> is_space (hd (normalize_version v))"
    by (rule normalize_version_twice)
next
  assume "re_version (normalize_version v)"
  then have "\<not> is_space (hd (normalize_version v))"
    using re_version_hd is_digit_not_space by blast
  then show "normalize_version (normalize_version v) = normalize_version v"
    by (simp add: normalize_version_twice)
next
  assume "re_version (normalize_version a) \<and> normalize_version a = normalize_version b"
  then show "main limit a results_dir now table_file = main limit b results_dir now table_file"
    by (auto simp: main_def Let_def)
next
  show v1: "normalize_version ''v1.2.3'' = ''1.2.3''" by code_simp
  show v2: "normalize_version ''1.2.3'' = ''1.2.3''" by code_simp
  show "load_entry platform updates (''v1.2.3'', status) = load_entry platform updates (''1.2.3'', status)"
    by (simp add: load_entry_def v1 v2)
qed

theorem normalize_version_idempotent_on_versions_witness:
  "re_version (normalize_version ''v1.2.3'')
   \<and> normalize_version (normalize_version ''v1.2.3'') = normalize_version ''v1.2.3''
   \<and> normalize_version ''v1.2.3'' = normalize_version ''1.2.3''
   \<and> main 4300 ''v1.2.3'' None ''2026-01-01T00:00:00Z'' None
       = main 4300 ''1.2.3'' None ''2026-01-01T00:00:00Z'' None"
proof -
  have r: "re_version (normalize_version ''v1.2.3'')" by code_simp
  have e: "normalize_version ''v1.2.3'' = normalize_version ''1.2.3''" by code_simp
  note t = normalize_version_idempotent_on_versions
    [where v = "''v1.2.3''" and a = "''v1.2.3''" and b = "''1.2.3''" and limit = 4300
       and results_dir = None and now = "''2026-01-01T00:00:00Z''" and table_file = None]
  from t r have "normalize_version (normalize_version ''v1.2.3'') = normalize_version ''v1.2.3''"
    by blast
  moreover from t r e
  have "main 4300 ''v1.2.3'' None ''2026-01-01T00:00:00Z'' None
       = main 4300 ''1.2.3'' None ''2026-01-01T00:00:00Z'' None"
    by blast
  ultimately show ?thesis using r e by blast
qed

text \<open>
  C10 as stated fails: normalization is not idempotent on every input. The leading
  \<^verbatim>\<open>v\<close> of \<^verbatim>\<open>"v 1.2.3"\<close> is dropped after the white space was stripped, which
  leaves \<^verbatim>\<open>" 1.2.3"\<close>; a second normalization strips the blank.
\<close>

theorem normalize_version_twice_counterexample:
  "normalize_version (normalize_version ''v 1.2.3'') \<noteq> normalize_version ''v 1.2.3''"
  by code_simp

subsection \<open>Invalid versions\<close>

text \<open>
  C3. When the \<^verbatim>\<open>--version\<close> argument, normalized, does not match the dotted-numeric
  pattern, \<^const>\<open>main\<close> ends with \<^verbatim>\<open>SystemExit("Invalid version: ...")\<close>, the exit
  status is not 0 and the table file is what it was: the check of lines 117 to 119
  comes before the table is read, merged or written. Whenever \<^const>\<open>main\<close> returns a
  value, that value is 0, the exit status is 0 and the table was written; whenever
  it ends with an exception, the exit status is not 0 and the table file is what it
  was. A run succeeds exactly when the version is valid, the artifacts load, and
  no version among the target and the rows of the table has a part with more digits
  than \<^verbatim>\<open>int\<close> converts; with a valid version and loaded artifacts, a part that is too
  long ends the run with the \<^verbatim>\<open>ValueError\<close> of the sort key.
\<close>

theorem invalid_version_is_fatal:
  "(\<not> re_version (normalize_version arg_version) \<longrightarrow>
      main limit arg_version results_dir now table_file
        = (Inl (SystemExit (''Invalid version: '' @ arg_version)), table_file)
      \<and> exit_status (fst (main limit arg_version results_dir now table_file)) \<noteq> 0
      \<and> snd (main limit arg_version results_dir now table_file) = table_file)
   \<and> (fst (main limit arg_version results_dir now table_file) = Inr code \<longrightarrow>
        code = 0
        \<and> exit_status (fst (main limit arg_version results_dir now table_file)) = 0
        \<and> (\<exists>content. snd (main limit arg_version results_dir now table_file) = Some content))
   \<and> (fst (main limit arg_version results_dir now table_file) = Inl e \<longrightarrow>
        exit_status (fst (main limit arg_version results_dir now table_file)) \<noteq> 0
        \<and> snd (main limit arg_version results_dir now table_file) = table_file)
   \<and> ((\<exists>content. main limit arg_version results_dir now table_file = (Inr 0, Some content))
        \<longleftrightarrow> re_version (normalize_version arg_version)
            \<and> (\<exists>u. load_results results_dir = Inr u)
            \<and> within_limit limit (normalize_version arg_version)
            \<and> list_all (within_limit limit) (map fst (parse_table table_file)))
   \<and> (re_version (normalize_version arg_version) \<and> load_results results_dir = Inr u
        \<and> \<not> (within_limit limit (normalize_version arg_version)
               \<and> list_all (within_limit limit) (map fst (parse_table table_file))) \<longrightarrow>
        main limit arg_version results_dir now table_file = (Inl ValueError, table_file))"
proof (intro conjI impI)
  assume "\<not> re_version (normalize_version arg_version)"
  then show "main limit arg_version results_dir now table_file
        = (Inl (SystemExit (''Invalid version: '' @ arg_version)), table_file)"
    and "exit_status (fst (main limit arg_version results_dir now table_file)) \<noteq> 0"
    and "snd (main limit arg_version results_dir now table_file) = table_file"
    by (simp_all add: main_def exit_status_def)
next
  assume a: "fst (main limit arg_version results_dir now table_file) = Inr code"
  then show "code = 0"
    by (auto simp: main_def Let_def split: if_splits sum.splits)
  with a show "exit_status (fst (main limit arg_version results_dir now table_file)) = 0"
    by (simp add: exit_status_def)
  from a show "\<exists>content. snd (main limit arg_version results_dir now table_file) = Some content"
    by (auto simp: main_def Let_def split: if_splits sum.splits)
next
  assume a: "fst (main limit arg_version results_dir now table_file) = Inl e"
  then show "exit_status (fst (main limit arg_version results_dir now table_file)) \<noteq> 0"
    by (simp add: exit_status_def)
  from a show "snd (main limit arg_version results_dir now table_file) = table_file"
    by (auto simp: main_def Let_def split: if_splits sum.splits)
next
  show "(\<exists>content. main limit arg_version results_dir now table_file = (Inr 0, Some content))
        \<longleftrightarrow> re_version (normalize_version arg_version)
            \<and> (\<exists>u. load_results results_dir = Inr u)
            \<and> within_limit limit (normalize_version arg_version)
            \<and> list_all (within_limit limit) (map fst (parse_table table_file))"
  proof
    assume "\<exists>content. main limit arg_version results_dir now table_file = (Inr 0, Some content)"
    then obtain content where
      m: "main limit arg_version results_dir now table_file = (Inr 0, Some content)" by blast
    then have v: "re_version (normalize_version arg_version)"
      by (auto simp: main_def Let_def split: if_splits)
    from m v obtain u where u: "load_results results_dir = Inr u"
      by (auto simp: main_def Let_def split: sum.splits)
    have "within_limit limit (normalize_version arg_version)
            \<and> list_all (within_limit limit) (map fst (parse_table table_file))"
    proof (rule ccontr)
      assume "\<not> (within_limit limit (normalize_version arg_version)
            \<and> list_all (within_limit limit) (map fst (parse_table table_file)))"
      from main_refused[OF v u this, of now] m show False by simp
    qed
    with v u show "re_version (normalize_version arg_version)
            \<and> (\<exists>u. load_results results_dir = Inr u)
            \<and> within_limit limit (normalize_version arg_version)
            \<and> list_all (within_limit limit) (map fst (parse_table table_file))"
      by blast
  next
    assume "re_version (normalize_version arg_version)
            \<and> (\<exists>u. load_results results_dir = Inr u)
            \<and> within_limit limit (normalize_version arg_version)
            \<and> list_all (within_limit limit) (map fst (parse_table table_file))"
    then obtain u where "re_version (normalize_version arg_version)"
      "load_results results_dir = Inr u"
      "within_limit limit (normalize_version arg_version)"
      "list_all (within_limit limit) (map fst (parse_table table_file))"
      by blast
    from main_written[OF this, of now]
    show "\<exists>content. main limit arg_version results_dir now table_file = (Inr 0, Some content)"
      by blast
  qed
next
  assume "re_version (normalize_version arg_version) \<and> load_results results_dir = Inr u
        \<and> \<not> (within_limit limit (normalize_version arg_version)
               \<and> list_all (within_limit limit) (map fst (parse_table table_file)))"
  then show "main limit arg_version results_dir now table_file = (Inl ValueError, table_file)"
    using main_refused by blast
qed

theorem invalid_version_is_fatal_witness:
  "\<not> re_version (normalize_version ''abc'')
   \<and> main 4300 ''abc'' (Some []) ''2026-01-01T00:00:00Z'' (Some ''| Codex version | linux |'')
       = (Inl (SystemExit ''Invalid version: abc''), Some ''| Codex version | linux |'')
   \<and> exit_status (fst (main 4300 ''abc'' (Some []) ''2026-01-01T00:00:00Z''
        (Some ''| Codex version | linux |''))) \<noteq> 0
   \<and> re_version (normalize_version ''1.2.3'')
   \<and> load_results None = Inr []
   \<and> within_limit 4300 (normalize_version ''1.2.3'')
   \<and> list_all (within_limit 4300) (map fst (parse_table None))
   \<and> (\<exists>content. main 4300 ''1.2.3'' None ''2026-01-01T00:00:00Z'' None = (Inr 0, Some content))
   \<and> exit_status (fst (main 4300 ''1.2.3'' None ''2026-01-01T00:00:00Z'' None)) = 0"
proof -
  have n: "\<not> re_version (normalize_version ''abc'')" by code_simp
  have y: "re_version (normalize_version ''1.2.3'')" by code_simp
  have l: "load_results None = Inr []" by (simp add: load_results_def)
  have w: "within_limit 4300 (normalize_version ''1.2.3'')" by code_simp
  have p: "list_all (within_limit 4300) (map fst (parse_table None))"
    by (simp add: parse_table_def)
  note t1 = invalid_version_is_fatal[where arg_version = "''abc''" and limit = 4300
      and results_dir = "Some []" and now = "''2026-01-01T00:00:00Z''"
      and table_file = "Some ''| Codex version | linux |''"]
  note t2 = invalid_version_is_fatal[where arg_version = "''1.2.3''" and limit = 4300
      and results_dir = None and now = "''2026-01-01T00:00:00Z''" and table_file = None
      and code = 0]
  have "main 4300 ''abc'' (Some []) ''2026-01-01T00:00:00Z'' (Some ''| Codex version | linux |'')
       = (Inl (SystemExit (''Invalid version: '' @ ''abc'')), Some ''| Codex version | linux |'')"
    using t1 n by blast
  moreover have "exit_status (fst (main 4300 ''abc'' (Some []) ''2026-01-01T00:00:00Z''
        (Some ''| Codex version | linux |''))) \<noteq> 0"
    using t1 n by blast
  moreover have c: "\<exists>content. main 4300 ''1.2.3'' None ''2026-01-01T00:00:00Z'' None
        = (Inr 0, Some content)"
    using t2 y l w p by blast
  moreover have "exit_status (fst (main 4300 ''1.2.3'' None ''2026-01-01T00:00:00Z'' None)) = 0"
  proof -
    from c obtain content where
      "main 4300 ''1.2.3'' None ''2026-01-01T00:00:00Z'' None = (Inr 0, Some content)" by blast
    then have "fst (main 4300 ''1.2.3'' None ''2026-01-01T00:00:00Z'' None) = Inr 0" by simp
    with t2 show ?thesis by blast
  qed
  ultimately show ?thesis using n y l w p by simp
qed

subsection \<open>Malformed input is skipped\<close>




subsection \<open>Unknown platforms\<close>

text \<open>
  C6, as amended. The platform of an artifact is \<^verbatim>\<open>str(payload.get("platform", ""))\<close>
  with surrounding white space stripped. When that text is not one of the five
  platforms, the artifact is ignored entirely: it leaves the loaded statuses as
  they were, and the load gives what it gives without the artifact.
\<close>

theorem unknown_platform_is_ignored:
  assumes "str_strip (py_str (dict_get fields ''platform'' (JStr ''''))) \<notin> set PLATFORMS"
  shows "load_file u (Inr (JObj fields)) = Inr u
         \<and> load_results (Some (pre @ Inr (JObj fields) # post)) = load_results (Some (pre @ post))"
proof -
  have f: "\<And>u. load_file u (Inr (JObj fields)) = Inr u"
    using assms by (simp add: load_file_def)
  then have "load_files [] (pre @ Inr (JObj fields) # post) = load_files [] (pre @ post)"
    by (simp add: load_files_append split: sum.splits)
  with f show ?thesis by (simp add: load_results_def)
qed

theorem unknown_platform_is_ignored_witness:
  "str_strip (py_str (dict_get [(''platform'', JStr ''freebsd''), (''results'', JObj [(''1.2.3'', JStr ''pass'')])]
       ''platform'' (JStr ''''))) \<notin> set PLATFORMS
   \<and> load_results (Some ([] @ Inr (JObj [(''platform'', JStr ''freebsd''), (''results'', JObj [(''1.2.3'', JStr ''pass'')])]) # []))
       = load_results (Some ([] @ []))
   \<and> load_results (Some ([] @ [])) = Inr []"
proof -
  have h: "str_strip (py_str (dict_get [(''platform'', JStr ''freebsd''), (''results'', JObj [(''1.2.3'', JStr ''pass'')])]
       ''platform'' (JStr ''''))) \<notin> set PLATFORMS"
    by code_simp
  have e: "load_results (Some ([] @ [])) = Inr []" by (simp add: load_results_def)
  from unknown_platform_is_ignored[OF h, of "[]" "[]" "[]"] h e show ?thesis by blast
qed

text \<open>
  C6 as stated fails: a platform field that is not in the allow-list still
  contributes when stripping its white space turns it into a platform. The field
  \<^verbatim>\<open>" linux"\<close> is not one of the five names, and its status reaches the row.
\<close>

theorem unknown_platform_counterexample:
  "dict_get [(''platform'', JStr '' linux''), (''results'', JObj [(''1.2.3'', JStr ''pass'')])]
       ''platform'' (JStr '''') = JStr '' linux''
   \<and> '' linux'' \<notin> set PLATFORMS
   \<and> load_results (Some [Inr (JObj [(''platform'', JStr '' linux''), (''results'', JObj [(''1.2.3'', JStr ''pass'')])])])
       = Inr [(''1.2.3'', [(''linux'', ''pass'')])]"
  by code_simp

subsection \<open>Statuses\<close>



subsection \<open>Order of the written rows\<close>



subsection \<open>Keys of the rows\<close>

text \<open>
  C8. The keys of the rows that \<^const>\<open>parse_table\<close> returns, of the statuses that
  \<^const>\<open>load_results\<close> returns and of the rows after the merge all match the
  dotted-numeric pattern, and no key occurs twice. A table line whose version does
  not match the pattern leaves the rows unchanged, and so does an artifact entry
  whose version does not match. The pattern holds of the texts made of at least two
  non-empty runs of digits joined by dots.
\<close>

theorem row_keys_are_versions:
  "distinct (map fst (parse_table table_file))
   \<and> list_all re_version (map fst (parse_table table_file))
   \<and> (load_results results_dir = Inr u \<longrightarrow>
        distinct (map fst u) \<and> list_all re_version (map fst u))
   \<and> (re_version (normalize_version arg_version) \<longrightarrow>
        distinct (map fst (merge_rows (normalize_version arg_version) (parse_table table_file) u' now))
        \<and> list_all re_version
            (map fst (merge_rows (normalize_version arg_version) (parse_table table_file) u' now)))
   \<and> (columns \<noteq> []
        \<and> \<not> re_version (normalize_version
              (dict_get (dict_of_pairs (zip columns (line_parts line))) ''Codex version'' '''')) \<longrightarrow>
        parse_line (columns, rows) line = (columns, rows))
   \<and> (\<not> re_version (normalize_version version) \<longrightarrow>
        load_entry platform u0 (version, status) = u0)
   \<and> (re_version s \<longleftrightarrow>
        (\<exists>parts. 2 \<le> length parts \<and> list_all re_digits parts \<and> s = str_join ''.'' parts))"
proof (intro conjI impI)
  show "distinct (map fst (parse_table table_file))"
    and "list_all re_version (map fst (parse_table table_file))"
    using rows_inv_parse_table[of table_file] by (simp_all add: rows_inv_def)
next
  assume "load_results results_dir = Inr u"
  then have "updates_inv u" by (rule updates_inv_load_results)
  then show "distinct (map fst u)" and "list_all re_version (map fst u)"
    by (simp_all add: updates_inv_def list_all_iff)
next
  assume "re_version (normalize_version arg_version)"
  then have "rows_inv (merge_rows (normalize_version arg_version) (parse_table table_file) u' now)"
    by (intro rows_inv_merge_rows rows_inv_parse_table)
  then show "distinct (map fst (merge_rows (normalize_version arg_version) (parse_table table_file) u' now))"
    and "list_all re_version
            (map fst (merge_rows (normalize_version arg_version) (parse_table table_file) u' now))"
    by (simp_all add: rows_inv_def)
next
  assume "columns \<noteq> []
        \<and> \<not> re_version (normalize_version
              (dict_get (dict_of_pairs (zip columns (line_parts line))) ''Codex version'' ''''))"
  then show "parse_line (columns, rows) line = (columns, rows)"
    by (auto simp: parse_line_def Let_def)
next
  assume "\<not> re_version (normalize_version version)"
  then show "load_entry platform u0 (version, status) = u0"
    by (simp add: load_entry_def)
next
  show "re_version s \<longleftrightarrow>
        (\<exists>parts. 2 \<le> length parts \<and> list_all re_digits parts \<and> s = str_join ''.'' parts)"
  proof
    assume "re_version s"
    then have "2 \<le> length (str_split CHR ''.'' s) \<and> list_all re_digits (str_split CHR ''.'' s)
        \<and> s = str_join ''.'' (str_split CHR ''.'' s)"
      by (simp add: re_version_def Let_def str_join_split)
    then show "\<exists>parts. 2 \<le> length parts \<and> list_all re_digits parts \<and> s = str_join ''.'' parts"
      by blast
  next
    assume "\<exists>parts. 2 \<le> length parts \<and> list_all re_digits parts \<and> s = str_join ''.'' parts"
    then obtain parts where p: "2 \<le> length parts" "list_all re_digits parts" "s = str_join ''.'' parts"
      by blast
    have "\<And>q. q \<in> set parts \<Longrightarrow> CHR ''.'' \<notin> set q"
      using p(2) by (fastforce simp: list_all_iff re_digits_def is_digit_def Let_def)
    moreover have "parts \<noteq> []" using p(1) by auto
    ultimately have "str_split CHR ''.'' s = parts"
      unfolding p(3) by (intro str_split_join)
    with p show "re_version s" by (simp add: re_version_def)
  qed
qed

theorem row_keys_are_versions_witness:
  "re_version (normalize_version ''v1.2.3'')
   \<and> distinct (map fst (merge_rows (normalize_version ''v1.2.3'')
        (parse_table (Some ''| Codex version | linux |'')) [] ''2026-01-01T00:00:00Z''))
   \<and> list_all re_version (map fst (merge_rows (normalize_version ''v1.2.3'')
        (parse_table (Some ''| Codex version | linux |'')) [] ''2026-01-01T00:00:00Z''))
   \<and> [''Codex version'', ''linux''] \<noteq> []
   \<and> \<not> re_version (normalize_version
          (dict_get (dict_of_pairs (zip [''Codex version'', ''linux''] (line_parts ''| latest | pass |'')))
             ''Codex version'' ''''))
   \<and> parse_line ([''Codex version'', ''linux''], []) ''| latest | pass |''
       = ([''Codex version'', ''linux''], [])
   \<and> \<not> re_version (normalize_version ''latest'')
   \<and> load_entry ''linux'' [] (''latest'', JStr ''pass'') = []
   \<and> load_results (Some []) = Inr []
   \<and> distinct (map fst ([] :: updates))"
proof -
  have h1: "re_version (normalize_version ''v1.2.3'')" by code_simp
  have h2: "[''Codex version'', ''linux''] \<noteq> []
   \<and> \<not> re_version (normalize_version
          (dict_get (dict_of_pairs (zip [''Codex version'', ''linux''] (line_parts ''| latest | pass |'')))
             ''Codex version'' ''''))"
    by code_simp
  have h3: "\<not> re_version (normalize_version ''latest'')" by code_simp
  have h4: "load_results (Some []) = Inr []" by (simp add: load_results_def)
  note t = row_keys_are_versions[of "Some ''| Codex version | linux |''" "Some []" "[]" "''v1.2.3''" "[]"
      "''2026-01-01T00:00:00Z''" "[''Codex version'', ''linux'']" "''| latest | pass |''" "[]"
      "''latest''" "''linux''" "[]" "JStr ''pass''" "''1.2.3''"]
  from t h1 have "distinct (map fst (merge_rows (normalize_version ''v1.2.3'')
        (parse_table (Some ''| Codex version | linux |'')) [] ''2026-01-01T00:00:00Z''))
   \<and> list_all re_version (map fst (merge_rows (normalize_version ''v1.2.3'')
        (parse_table (Some ''| Codex version | linux |'')) [] ''2026-01-01T00:00:00Z''))"
    by blast
  moreover from t h2 have "parse_line ([''Codex version'', ''linux''], []) ''| latest | pass |''
       = ([''Codex version'', ''linux''], [])"
    by blast
  moreover from t h3 have "load_entry ''linux'' [] (''latest'', JStr ''pass'') = []"
    by blast
  moreover from t h4 have "distinct (map fst ([] :: updates))"
    by blast
  ultimately show ?thesis using h1 h2 h3 h4 by blast
qed

subsection \<open>The other rows\<close>

text \<open>
  C9. In a run with a valid version whose artifacts load, every key other than the
  normalized target version has, in the rows handed to \<^const>\<open>write_table\<close>, the row it
  had after parsing, whatever the artifacts hold for it. When \<^const>\<open>write_table\<close>
  writes those rows, the run returns 0 and the table file is the text written, and
  when the clock's text is a clean cell, as every text of the format
  \<^verbatim>\<open>%Y-%m-%dT%H:%M:%SZ\<close> is, parsing the written table gives that key the row it had
  before. When \<^const>\<open>write_table\<close> raises, the run ends with its exception and the
  table file is what it was, so that no row has changed. The rows are written
  whenever no version among the target and the keys of the table has a part with
  more digits than \<^verbatim>\<open>int\<close> converts.
\<close>

theorem only_the_target_row_changes:
  assumes "re_version (normalize_version arg_version)"
    and "load_results results_dir = Inr u"
    and "k \<noteq> normalize_version arg_version"
  shows "map_of (merge_rows (normalize_version arg_version) (parse_table table_file) u now) k
           = map_of (parse_table table_file) k
         \<and> (write_table limit
                (merge_rows (normalize_version arg_version) (parse_table table_file) u now)
              = Inr content \<longrightarrow>
              main limit arg_version results_dir now table_file = (Inr 0, Some content)
              \<and> (clean_cell now \<longrightarrow>
                   map_of (parse_table (Some content)) k = map_of (parse_table table_file) k))
         \<and> (write_table limit
                (merge_rows (normalize_version arg_version) (parse_table table_file) u now)
              = Inl e \<longrightarrow>
              main limit arg_version results_dir now table_file = (Inl e, table_file))
         \<and> (within_limit limit (normalize_version arg_version)
              \<and> list_all (within_limit limit) (map fst (parse_table table_file)) \<longrightarrow>
              (\<exists>written. write_table limit
                  (merge_rows (normalize_version arg_version) (parse_table table_file) u now)
                = Inr written))"
proof (intro conjI impI)
  let ?v = "normalize_version arg_version"
  show "map_of (merge_rows ?v (parse_table table_file) u now) k = map_of (parse_table table_file) k"
    using assms(3) by (simp add: merge_rows_def map_of_dict_set)
next
  let ?v = "normalize_version arg_version"
  assume w: "write_table limit (merge_rows ?v (parse_table table_file) u now) = Inr content"
  then show "main limit arg_version results_dir now table_file = (Inr 0, Some content)"
    by (simp add: main_valid[OF assms(1,2)])
  assume "clean_cell now"
  from main_then_parse[OF assms(1,2) this w]
  have "map_of (parse_table (Some content))
               = (map_of (parse_table table_file))
                   (?v \<mapsto> merged_row ?v (parse_table table_file) u now)"
    by simp
  then show "map_of (parse_table (Some content)) k = map_of (parse_table table_file) k"
    using assms(3) by simp
next
  assume "write_table limit
      (merge_rows (normalize_version arg_version) (parse_table table_file) u now) = Inl e"
  then show "main limit arg_version results_dir now table_file = (Inl e, table_file)"
    by (simp add: main_valid[OF assms(1,2)])
next
  assume "within_limit limit (normalize_version arg_version)
              \<and> list_all (within_limit limit) (map fst (parse_table table_file))"
  then have l: "within_limit limit (normalize_version arg_version)"
    "list_all (within_limit limit) (map fst (parse_table table_file))"
    by simp_all
  from main_written[OF assms(1,2) l, of now]
  show "\<exists>written. write_table limit
      (merge_rows (normalize_version arg_version) (parse_table table_file) u now) = Inr written"
    by blast
qed

theorem only_the_target_row_changes_witness:
  "re_version (normalize_version ''v1.2.3'')
   \<and> load_results (Some [Inr (JObj [(''platform'', JStr ''linux''),
        (''results'', JObj [(''1.0.0'', JStr ''fail''), (''1.2.3'', JStr ''pass'')])])])
       = Inr [(''1.0.0'', [(''linux'', ''fail'')]), (''1.2.3'', [(''linux'', ''pass'')])]
   \<and> ''1.0.0'' \<noteq> normalize_version ''v1.2.3''
   \<and> within_limit 4300 (normalize_version ''v1.2.3'')
   \<and> list_all (within_limit 4300)
        (map fst (parse_table (Some (str_join [CHR 0x0A] (HEADER @ [''| 1.0.0 | pass | pass | pass | pass | pass | 2024 |''])))))
   \<and> clean_cell ''2026-01-01T00:00:00Z''
   \<and> map_of (merge_rows (normalize_version ''v1.2.3'')
         (parse_table (Some (str_join [CHR 0x0A] (HEADER @ [''| 1.0.0 | pass | pass | pass | pass | pass | 2024 |'']))))
         [(''1.0.0'', [(''linux'', ''fail'')]), (''1.2.3'', [(''linux'', ''pass'')])]
         ''2026-01-01T00:00:00Z'') ''1.0.0''
       = map_of (parse_table (Some (str_join [CHR 0x0A] (HEADER @ [''| 1.0.0 | pass | pass | pass | pass | pass | 2024 |''])))) ''1.0.0''
   \<and> map_of (parse_table (Some (str_join [CHR 0x0A] (HEADER @ [''| 1.0.0 | pass | pass | pass | pass | pass | 2024 |''])))) ''1.0.0''
       = Some [(''linux'', ''pass''), (''mac'', ''pass''), (''windows'', ''pass''), (''rockylinux8'', ''pass''),
               (''ubuntu20.04'', ''pass''), (''last_tested_utc'', ''2024'')]
   \<and> (\<exists>content.
         main 4300 ''v1.2.3''
           (Some [Inr (JObj [(''platform'', JStr ''linux''),
              (''results'', JObj [(''1.0.0'', JStr ''fail''), (''1.2.3'', JStr ''pass'')])])])
           ''2026-01-01T00:00:00Z''
           (Some (str_join [CHR 0x0A] (HEADER @ [''| 1.0.0 | pass | pass | pass | pass | pass | 2024 |''])))
           = (Inr 0, Some content)
         \<and> map_of (parse_table (Some content)) ''1.0.0''
           = Some [(''linux'', ''pass''), (''mac'', ''pass''), (''windows'', ''pass''), (''rockylinux8'', ''pass''),
               (''ubuntu20.04'', ''pass''), (''last_tested_utc'', ''2024'')])"
proof -
  define rd where "rd = Some [Inr (JObj [(''platform'', JStr ''linux''),
        (''results'', JObj [(''1.0.0'', JStr ''fail''), (''1.2.3'', JStr ''pass'')])]) :: result_file]"
  define u :: updates
    where "u = [(''1.0.0'', [(''linux'', ''fail'')]), (''1.2.3'', [(''linux'', ''pass'')])]"
  define tf where "tf = Some (str_join [CHR 0x0A]
      (HEADER @ [''| 1.0.0 | pass | pass | pass | pass | pass | 2024 |'']))"
  define a where "a = ''v1.2.3''"
  define k where "k = ''1.0.0''"
  define now where "now = ''2026-01-01T00:00:00Z''"
  define r :: row where "r = [(''linux'', ''pass''), (''mac'', ''pass''), (''windows'', ''pass''),
      (''rockylinux8'', ''pass''), (''ubuntu20.04'', ''pass''), (''last_tested_utc'', ''2024'')]"
  have h1: "re_version (normalize_version a)" unfolding a_def by code_simp
  have h2: "load_results rd = Inr u" unfolding rd_def u_def by code_simp
  have h3: "k \<noteq> normalize_version a" unfolding k_def a_def by code_simp
  have h4: "map_of (parse_table tf) k = Some r" unfolding tf_def k_def r_def by code_simp
  have h5: "within_limit 4300 (normalize_version a)" unfolding a_def by code_simp
  have h6: "list_all (within_limit 4300) (map fst (parse_table tf))" unfolding tf_def by code_simp
  have h7: "clean_cell now" unfolding now_def by code_simp
  note t = only_the_target_row_changes[where limit = 4300 and table_file = tf and now = now,
      OF h1 h2 h3]
  from t[where content = "[]" and e = ValueError]
  have c1: "map_of (merge_rows (normalize_version a) (parse_table tf) u now) k
       = map_of (parse_table tf) k"
    by (elim conjE)
  from t h5 h6 obtain content where
    w: "write_table 4300 (merge_rows (normalize_version a) (parse_table tf) u now) = Inr content"
    by blast
  from t[where content = content] w h7 have
    "main 4300 a rd now tf = (Inr 0, Some content)
     \<and> map_of (parse_table (Some content)) k = map_of (parse_table tf) k"
    by blast
  with h4 have c2: "\<exists>content. main 4300 a rd now tf = (Inr 0, Some content)
     \<and> map_of (parse_table (Some content)) k = Some r"
    by auto
  from h1 h2 h3 h5 h6 h7 c1 h4 c2 show ?thesis
    unfolding rd_def u_def tf_def a_def k_def now_def r_def by (intro conjI)
qed

subsection \<open>The merged row\<close>

text \<open>
  C1. In a run with a valid version whose artifacts load, the rows handed to
  \<^const>\<open>write_table\<close> give the target version the merged row: for each of the five
  platforms, in order, the status loaded from the artifacts for that version where
  there is one, else the status of the version's parsed row, else \<^verbatim>\<open>not-run\<close>; and
  last, the clock's text as \<^verbatim>\<open>last_tested_utc\<close>. A target version with no parsed row
  and no loaded statuses gets \<^verbatim>\<open>not-run\<close> five times and the clock's text. When
  \<^const>\<open>write_table\<close> writes those rows, the run returns 0, the table file is the text
  written, and when the clock's text is a clean cell, parsing it gives the
  target version this row. The rows are written whenever no version among the
  target and the keys of the table has a part with more digits than \<^verbatim>\<open>int\<close> converts.
\<close>

theorem target_row_is_merged:
  assumes "re_version (normalize_version arg_version)"
    and "load_results results_dir = Inr u"
  shows "(write_table limit
              (merge_rows (normalize_version arg_version) (parse_table table_file) u now)
            = Inr content \<longrightarrow>
            main limit arg_version results_dir now table_file = (Inr 0, Some content)
            \<and> (clean_cell now \<longrightarrow>
                 map_of (parse_table (Some content)) (normalize_version arg_version)
                   = Some (merged_row (normalize_version arg_version) (parse_table table_file) u now)))
         \<and> (within_limit limit (normalize_version arg_version)
              \<and> list_all (within_limit limit) (map fst (parse_table table_file)) \<longrightarrow>
              (\<exists>written. write_table limit
                  (merge_rows (normalize_version arg_version) (parse_table table_file) u now)
                = Inr written))
         \<and> map_of (merge_rows (normalize_version arg_version) (parse_table table_file) u now)
               (normalize_version arg_version)
             = Some (merged_row (normalize_version arg_version) (parse_table table_file) u now)
         \<and> merged_row (normalize_version arg_version) (parse_table table_file) u now
             = map (\<lambda>platform.
                      (platform,
                       dict_get (dict_get u (normalize_version arg_version) []) platform
                         (dict_get (dict_get (parse_table table_file) (normalize_version arg_version) [])
                            platform ''not-run'')))
                 PLATFORMS
               @ [(''last_tested_utc'', now)]
         \<and> (map_of (parse_table table_file) (normalize_version arg_version) = None
              \<and> map_of u (normalize_version arg_version) = None \<longrightarrow>
              merged_row (normalize_version arg_version) (parse_table table_file) u now
                = [(''linux'', ''not-run''), (''mac'', ''not-run''), (''windows'', ''not-run''),
                   (''rockylinux8'', ''not-run''), (''ubuntu20.04'', ''not-run''),
                   (''last_tested_utc'', now)])"
proof -
  let ?v = "normalize_version arg_version"
  let ?rows = "parse_table table_file"
  have ui: "updates_inv u" using assms(2) by (rule updates_inv_load_results)
  note eq = merged_row_eq[OF ui, of ?v ?rows now]
  have p: "write_table limit (merge_rows ?v ?rows u now) = Inr content \<longrightarrow>
      main limit arg_version results_dir now table_file = (Inr 0, Some content)
      \<and> (clean_cell now \<longrightarrow>
           map_of (parse_table (Some content)) ?v = Some (merged_row ?v ?rows u now))"
  proof (intro impI conjI)
    assume w: "write_table limit (merge_rows ?v ?rows u now) = Inr content"
    then show "main limit arg_version results_dir now table_file = (Inr 0, Some content)"
      by (simp add: main_valid[OF assms(1,2)])
    assume "clean_cell now"
    from main_then_parse[OF assms(1,2) this w]
    have "map_of (parse_table (Some content)) = (map_of ?rows)(?v \<mapsto> merged_row ?v ?rows u now)"
      by simp
    then show "map_of (parse_table (Some content)) ?v = Some (merged_row ?v ?rows u now)"
      by simp
  qed
  have x: "within_limit limit ?v \<and> list_all (within_limit limit) (map fst ?rows) \<longrightarrow>
      (\<exists>written. write_table limit (merge_rows ?v ?rows u now) = Inr written)"
  proof
    assume "within_limit limit ?v \<and> list_all (within_limit limit) (map fst ?rows)"
    then have l: "within_limit limit ?v" "list_all (within_limit limit) (map fst ?rows)"
      by simp_all
    from main_written[OF assms(1,2) l, of now]
    show "\<exists>written. write_table limit (merge_rows ?v ?rows u now) = Inr written" by blast
  qed
  have l: "map_of (merge_rows ?v ?rows u now) ?v = Some (merged_row ?v ?rows u now)"
    by (simp add: merge_rows_def map_of_dict_set)
  have n: "map_of ?rows ?v = None \<and> map_of u ?v = None \<longrightarrow>
      merged_row ?v ?rows u now
        = [(''linux'', ''not-run''), (''mac'', ''not-run''), (''windows'', ''not-run''),
           (''rockylinux8'', ''not-run''), (''ubuntu20.04'', ''not-run''),
           (''last_tested_utc'', now)]"
    unfolding eq by (simp add: dict_get_def PLATFORMS_def)
  from p x l eq n show ?thesis by (intro conjI)
qed

theorem target_row_is_merged_witness:
  "re_version (normalize_version ''v1.2.3'')
   \<and> load_results None = Inr []
   \<and> map_of (parse_table None) (normalize_version ''v1.2.3'') = None
   \<and> map_of ([] :: updates) (normalize_version ''v1.2.3'') = None
   \<and> merged_row (normalize_version ''v1.2.3'') (parse_table None) [] ''2026-01-01T00:00:00Z''
       = [(''linux'', ''not-run''), (''mac'', ''not-run''), (''windows'', ''not-run''),
          (''rockylinux8'', ''not-run''), (''ubuntu20.04'', ''not-run''),
          (''last_tested_utc'', ''2026-01-01T00:00:00Z'')]
   \<and> map_of (merge_rows (normalize_version ''v1.2.3'') (parse_table None) [] ''2026-01-01T00:00:00Z'')
         (normalize_version ''v1.2.3'')
       = Some (merged_row (normalize_version ''v1.2.3'') (parse_table None) [] ''2026-01-01T00:00:00Z'')
   \<and> within_limit 4300 (normalize_version ''v1.2.3'')
   \<and> list_all (within_limit 4300) (map fst (parse_table None))
   \<and> clean_cell ''2026-01-01T00:00:00Z''
   \<and> (\<exists>content.
         main 4300 ''v1.2.3'' None ''2026-01-01T00:00:00Z'' None = (Inr 0, Some content)
         \<and> map_of (parse_table (Some content)) (normalize_version ''v1.2.3'')
           = Some [(''linux'', ''not-run''), (''mac'', ''not-run''), (''windows'', ''not-run''),
                   (''rockylinux8'', ''not-run''), (''ubuntu20.04'', ''not-run''),
                   (''last_tested_utc'', ''2026-01-01T00:00:00Z'')])
   \<and> load_results (Some [Inr (JObj [(''platform'', JStr ''linux''),
                                       (''results'', JObj [(''v1.2.3'', JStr ''FAIL'')])]),
                            Inr (JObj [(''platform'', JStr ''windows''),
                                       (''results'', JObj [(''1.2.3'', JStr ''Pass''), (''9.9'', JStr ''pass'')])])])
       = Inr [(''1.2.3'', [(''linux'', ''fail''), (''windows'', ''pass'')]), (''9.9'', [(''windows'', ''pass'')])]
   \<and> merged_row (normalize_version ''v1.2.3'')
         (parse_table (Some (str_join [CHR 0x0A] (HEADER @
            [''| 1.2.3 | pass | fail | not-run | pass | pass | 2024-05-01T10:00:00Z |'']))))
         [(''1.2.3'', [(''linux'', ''fail''), (''windows'', ''pass'')]), (''9.9'', [(''windows'', ''pass'')])]
         ''2026-01-01T00:00:00Z''
       = [(''linux'', ''fail''), (''mac'', ''fail''), (''windows'', ''pass''),
          (''rockylinux8'', ''pass''), (''ubuntu20.04'', ''pass''),
          (''last_tested_utc'', ''2026-01-01T00:00:00Z'')]"
proof -
  define a where "a = ''v1.2.3''"
  define now where "now = ''2026-01-01T00:00:00Z''"
  define r0 :: row where "r0 = [(''linux'', ''not-run''), (''mac'', ''not-run''),
      (''windows'', ''not-run''), (''rockylinux8'', ''not-run''), (''ubuntu20.04'', ''not-run''),
      (''last_tested_utc'', now)]"
  have h1: "re_version (normalize_version a)" unfolding a_def by code_simp
  have h2: "load_results None = Inr []" by (simp add: load_results_def)
  have h3: "map_of (parse_table None) (normalize_version a) = None"
    by (simp add: parse_table_def)
  have h4: "map_of ([] :: updates) (normalize_version a) = None" by simp
  have h6: "within_limit 4300 (normalize_version a)" unfolding a_def by code_simp
  have h7: "list_all (within_limit 4300) (map fst (parse_table None))"
    by (simp add: parse_table_def)
  have h8: "clean_cell now" unfolding now_def by code_simp
  note t = target_row_is_merged[where limit = 4300 and now = now and table_file = None, OF h1 h2]
  from t h3 h4 have a: "merged_row (normalize_version a) (parse_table None) [] now = r0"
    unfolding r0_def by blast
  from t[where content = "[]"]
  have b: "map_of (merge_rows (normalize_version a) (parse_table None) [] now)
         (normalize_version a)
       = Some (merged_row (normalize_version a) (parse_table None) [] now)"
    by (elim conjE)
  from t h6 h7 obtain content where
    w: "write_table 4300 (merge_rows (normalize_version a) (parse_table None) [] now) = Inr content"
    by blast
  from t[where content = content] w h8 have
    "main 4300 a None now None = (Inr 0, Some content)
     \<and> map_of (parse_table (Some content)) (normalize_version a)
         = Some (merged_row (normalize_version a) (parse_table None) [] now)"
    by blast
  with a have d: "\<exists>content. main 4300 a None now None = (Inr 0, Some content)
     \<and> map_of (parse_table (Some content)) (normalize_version a) = Some r0"
    by auto
  define rd where "rd = Some [Inr (JObj [(''platform'', JStr ''linux''),
                                       (''results'', JObj [(''v1.2.3'', JStr ''FAIL'')])]),
                            Inr (JObj [(''platform'', JStr ''windows''),
                                       (''results'', JObj [(''1.2.3'', JStr ''Pass''), (''9.9'', JStr ''pass'')])])
                            :: result_file]"
  define u :: updates where "u = [(''1.2.3'', [(''linux'', ''fail''), (''windows'', ''pass'')]), (''9.9'', [(''windows'', ''pass'')])]"
  define tf where "tf = Some (str_join [CHR 0x0A] (HEADER @
            [''| 1.2.3 | pass | fail | not-run | pass | pass | 2024-05-01T10:00:00Z |'']))"
  have h5: "load_results rd = Inr u" unfolding rd_def u_def by code_simp
  have e: "map (\<lambda>platform.
                      (platform,
                       dict_get (dict_get u (normalize_version a) []) platform
                         (dict_get (dict_get (parse_table tf) (normalize_version a) [])
                            platform ''not-run'')))
                 PLATFORMS
               @ [(''last_tested_utc'', now)]
       = [(''linux'', ''fail''), (''mac'', ''fail''), (''windows'', ''pass''),
          (''rockylinux8'', ''pass''), (''ubuntu20.04'', ''pass''),
          (''last_tested_utc'', ''2026-01-01T00:00:00Z'')]"
    unfolding u_def tf_def a_def now_def by code_simp
  have "merged_row (normalize_version a) (parse_table tf) u now
       = map (\<lambda>platform.
                      (platform,
                       dict_get (dict_get u (normalize_version a) []) platform
                         (dict_get (dict_get (parse_table tf) (normalize_version a) [])
                            platform ''not-run'')))
                 PLATFORMS
               @ [(''last_tested_utc'', now)]"
    using target_row_is_merged[where limit = 4300 and now = now and table_file = tf
        and content = "[]", OF h1 h5]
    by (elim conjE)
  then have c: "merged_row (normalize_version a) (parse_table tf) u now
       = [(''linux'', ''fail''), (''mac'', ''fail''), (''windows'', ''pass''),
          (''rockylinux8'', ''pass''), (''ubuntu20.04'', ''pass''),
          (''last_tested_utc'', ''2026-01-01T00:00:00Z'')]"
    by (rule trans) (rule e)
  from h1 h2 h3 h4 a b h6 h7 h8 d h5 c show ?thesis
    unfolding rd_def u_def tf_def a_def r0_def now_def by (intro conjI)
qed

subsection \<open>Parsing what was written\<close>




end
